theory Spec2Isabelle
  imports Complex_Main "HOL-Library.Char_ord" "HOL-Library.List_Lexorder"
begin

section \<open>The model of reorganize\_sin.py\<close>

text \<open>
  A shallow embedding of the planning ledger, the collision-safe copy helpers, the VIN
  helpers, the folder planners and the rename/dedup pass of \<^verbatim>\<open>reorganize_sin.py\<close>.
  Python \<^verbatim>\<open>str\<close> values are modelled as \<^typ>\<open>string\<close>; a character stands for a code
  point below 256.
\<close>

subsection \<open>Change ledger\<close>

text \<open>The dataclass \<^verbatim>\<open>Change\<close>; its fields are all \<^verbatim>\<open>str\<close>.\<close>

record Change =
  action :: string
  source :: string
  destination :: string
  reason :: string
  parent_folder :: string
  vin :: string
  status :: string

text \<open>
  The class \<^verbatim>\<open>Ledger\<close>: the list of changes, the warnings, the PDF scan log and the
  dict \<^verbatim>\<open>_planned_dests\<close> from destination string to source string.
\<close>

record Ledger =
  changes :: "Change list"
  warnings :: "string list"
  pdf_scans :: "(string \<times> string list) list"
  planned_dests :: "string \<rightharpoonup> string"

definition Ledger_init :: Ledger where
  "Ledger_init = \<lparr>changes = [], warnings = [], pdf_scans = [], planned_dests = Map.empty\<rparr>"

definition mk_change :: "string \<Rightarrow> string \<Rightarrow> string \<Rightarrow> string \<Rightarrow> string \<Rightarrow> string \<Rightarrow> Change" where
  "mk_change act src dst rsn pf v =
     \<lparr>action = act, source = src, destination = dst, reason = rsn,
      parent_folder = pf, vin = v, status = ''planned''\<rparr>"

text \<open>
  \<^verbatim>\<open>Ledger.add\<close>: for a \<^verbatim>\<open>copy_file\<close> whose destination is in the index with the same
  source the method returns at once; otherwise the index entry is (over)written and the
  change is appended. Any other action is appended without touching the index.
\<close>

definition Ledger_add ::
  "string \<Rightarrow> string \<Rightarrow> string \<Rightarrow> string \<Rightarrow> string \<Rightarrow> string \<Rightarrow> Ledger \<Rightarrow> Ledger" where
  "Ledger_add act src dst rsn pf v L =
     (if act = ''copy_file'' \<and> planned_dests L dst = Some src then L
      else
        (let L1 = (if act = ''copy_file''
                   then L\<lparr>planned_dests := (planned_dests L)(dst \<mapsto> src)\<rparr> else L)
         in L1\<lparr>changes := changes L1 @ [mk_change act src dst rsn pf v]\<rparr>))"


text \<open>A planning run as far as the ledger sees it: a sequence of calls of \<^verbatim>\<open>add\<close>.\<close>

type_synonym add_call = "string \<times> string \<times> string \<times> string \<times> string \<times> string"

fun do_add :: "Ledger \<Rightarrow> add_call \<Rightarrow> Ledger" where
  "do_add L (act, src, dst, rsn, pf, v) = Ledger_add act src dst rsn pf v L"

definition plan_adds :: "add_call list \<Rightarrow> Ledger" where
  "plan_adds calls = foldl do_add Ledger_init calls"

text \<open>The copy entries planned for one destination, in ledger order.\<close>

definition copies_to :: "string \<Rightarrow> Change list \<Rightarrow> Change list" where
  "copies_to dst cs = filter (\<lambda>c. action c = ''copy_file'' \<and> destination c = dst) cs"

definition last_source :: "string \<Rightarrow> Change list \<Rightarrow> string option" where
  "last_source dst cs =
     (if copies_to dst cs = [] then None else Some (source (last (copies_to dst cs))))"

text \<open>The invariant as the specification words it.\<close>

definition no_shared_destination :: "Ledger \<Rightarrow> bool" where
  "no_shared_destination L =
     (\<forall>c \<in> set (changes L). \<forall>d \<in> set (changes L).
        action c = ''copy_file'' \<and> action d = ''copy_file'' \<and> destination c = destination d
          \<longrightarrow> source c = source d)"

text \<open>The invariant the method keeps.\<close>

definition ledger_inv :: "Ledger \<Rightarrow> bool" where
  "ledger_inv L =
     (\<forall>dst. planned_dests L dst = last_source dst (changes L)
          \<and> distinct_adj (map source (copies_to dst (changes L))))"

subsection \<open>Characters\<close>

text \<open>
  The character tests of Python on code points below 256: \<^verbatim>\<open>str.isalpha\<close>,
  \<^verbatim>\<open>str.isdigit\<close>, the class \<^verbatim>\<open>\w\<close> of the module \<^verbatim>\<open>re\<close> (alphanumeric or
  underscore) and its class \<^verbatim>\<open>\s\<close>.
\<close>

definition code_point :: "char \<Rightarrow> nat" where
  "code_point c = of_char c"

definition newline :: char where
  "newline = CHR 0x0A"

definition upper :: string where
  "upper = ''ABCDEFGHIJKLMNOPQRSTUVWXYZ''"

definition lower :: string where
  "lower = ''abcdefghijklmnopqrstuvwxyz''"

definition digits :: string where
  "digits = ''0123456789''"

definition whitespace :: string where
  "whitespace = [CHR 0x09, CHR 0x0A, CHR 0x0B, CHR 0x0C, CHR 0x0D, CHR 0x1C, CHR 0x1D,
                 CHR 0x1E, CHR 0x1F, CHR 0x20, CHR 0x85, CHR 0xA0]"

definition py_isalpha :: "char \<Rightarrow> bool" where
  "py_isalpha c = (let n = code_point c in
     (65 \<le> n \<and> n \<le> 90) \<or> (97 \<le> n \<and> n \<le> 122) \<or> n = 170 \<or> n = 181 \<or> n = 186
     \<or> (192 \<le> n \<and> n \<le> 214) \<or> (216 \<le> n \<and> n \<le> 246) \<or> (248 \<le> n \<and> n \<le> 255))"

definition py_isdigit :: "char \<Rightarrow> bool" where
  "py_isdigit c = (let n = code_point c in
     (48 \<le> n \<and> n \<le> 57) \<or> n = 178 \<or> n = 179 \<or> n = 185)"

definition py_isalnum :: "char \<Rightarrow> bool" where
  "py_isalnum c = (let n = code_point c in
     py_isalpha c \<or> py_isdigit c \<or> n = 188 \<or> n = 189 \<or> n = 190)"

definition is_word :: "char \<Rightarrow> bool" where
  "is_word c = (py_isalnum c \<or> c = CHR ''_'')"

definition to_upper :: "char \<Rightarrow> char" where
  "to_upper c = (if c \<in> set lower then char_of (code_point c - 32) else c)"

definition to_lower :: "char \<Rightarrow> char" where
  "to_lower c = (if c \<in> set upper then char_of (code_point c + 32) else c)"

text \<open>\<^verbatim>\<open>str.lower\<close> on code points below 256: the letters A-Z and the range 192-222 but 215.\<close>

definition py_lower_char :: "char \<Rightarrow> char" where
  "py_lower_char c = (let n = code_point c in
     if (65 \<le> n \<and> n \<le> 90) \<or> (192 \<le> n \<and> n \<le> 222 \<and> n \<noteq> 215) then char_of (n + 32) else c)"

definition py_lower :: "string \<Rightarrow> string" where
  "py_lower s = map py_lower_char s"

text \<open>\<^verbatim>\<open>w in s\<close> on strings.\<close>

definition contains :: "string \<Rightarrow> string \<Rightarrow> bool" where
  "contains s w = list_ex (\<lambda>i. take (length w) (drop i s) = w) [0..<Suc (length s)]"

text \<open>\<^verbatim>\<open>str(n)\<close> for a natural number.\<close>

fun show_nat :: "nat \<Rightarrow> string" where
  "show_nat n = (if n < 10 then [digits ! n] else show_nat (n div 10) @ [digits ! (n mod 10)])"

declare show_nat.simps [simp del]

subsection \<open>Regular expressions\<close>

text \<open>
  The patterns of the module use literals, character classes, the repetitions
  \<^verbatim>\<open>*\<close>, \<^verbatim>\<open>+\<close>, \<^verbatim>\<open>+?\<close> and \<^verbatim>\<open>{n}\<close> on single characters, one capturing group,
  \<^verbatim>\<open>^\<close>, \<^verbatim>\<open>$\<close>, \<^verbatim>\<open>\b\<close> and negative lookaround on one character. A pattern is a list
  of such items. The matcher explores the alternatives in the order of Python's
  backtracking matcher and returns the first success: the end position and the bounds of
  group 1.
\<close>

datatype cls = In string | NotIn string

fun mem :: "cls \<Rightarrow> char \<Rightarrow> bool" where
  "mem (In cs) c = (c \<in> set cs)"
| "mem (NotIn cs) c = (c \<notin> set cs)"

datatype item =
    Ch cls | Star cls | Plus cls | LazyPlus cls | Rep nat cls
  | Open | Close | Bos | Eos | WordB | NotBehind cls | NotAhead cls

definition span :: "cls \<Rightarrow> string \<Rightarrow> nat \<Rightarrow> nat" where
  "span k s i = length (takeWhile (mem k) (drop i s))"

fun first_some :: "('a \<Rightarrow> 'b option) \<Rightarrow> 'a list \<Rightarrow> 'b option" where
  "first_some f [] = None"
| "first_some f (x # xs) = (case f x of Some y \<Rightarrow> Some y | None \<Rightarrow> first_some f xs)"

lemma first_some_cong [fundef_cong]:
  "xs = ys \<Longrightarrow> (\<And>x. x \<in> set ys \<Longrightarrow> f x = g x) \<Longrightarrow> first_some f xs = first_some g ys"
  by (induction ys arbitrary: xs) (auto split: option.splits)

definition at_boundary :: "string \<Rightarrow> nat \<Rightarrow> bool" where
  "at_boundary s i =
     ((0 < i \<and> i \<le> length s \<and> is_word (s ! (i - 1))) \<noteq> (i < length s \<and> is_word (s ! i)))"

type_synonym mstate = "nat \<times> nat \<times> nat"

fun run :: "string \<Rightarrow> item list \<Rightarrow> mstate \<Rightarrow> mstate option" where
  "run s [] st = Some st"
| "run s (Ch k # r) (i, a, b) =
     (if i < length s \<and> mem k (s ! i) then run s r (Suc i, a, b) else None)"
| "run s (Star k # r) (i, a, b) =
     first_some (\<lambda>n. run s r (i + n, a, b)) (rev [0..<Suc (span k s i)])"
| "run s (Plus k # r) (i, a, b) =
     first_some (\<lambda>n. run s r (i + n, a, b)) (rev [1..<Suc (span k s i)])"
| "run s (LazyPlus k # r) (i, a, b) =
     first_some (\<lambda>n. run s r (i + n, a, b)) [1..<Suc (span k s i)]"
| "run s (Rep n k # r) (i, a, b) =
     (if n \<le> span k s i then run s r (i + n, a, b) else None)"
| "run s (Open # r) (i, a, b) = run s r (i, i, b)"
| "run s (Close # r) (i, a, b) = run s r (i, a, i)"
| "run s (Bos # r) (i, a, b) = (if i = 0 then run s r (i, a, b) else None)"
| "run s (Eos # r) (i, a, b) =
     (if i = length s \<or> (Suc i = length s \<and> s ! i = newline) then run s r (i, a, b) else None)"
| "run s (WordB # r) (i, a, b) = (if at_boundary s i then run s r (i, a, b) else None)"
| "run s (NotBehind k # r) (i, a, b) =
     (if 0 < i \<and> i \<le> length s \<and> mem k (s ! (i - 1)) then None else run s r (i, a, b))"
| "run s (NotAhead k # r) (i, a, b) =
     (if i < length s \<and> mem k (s ! i) then None else run s r (i, a, b))"

text \<open>\<^verbatim>\<open>m.group(1)\<close>, \<^verbatim>\<open>pattern.match(s)\<close> and \<^verbatim>\<open>pattern.search(s)\<close>.\<close>

definition group1 :: "string \<Rightarrow> mstate \<Rightarrow> string" where
  "group1 s st = (case st of (i, a, b) \<Rightarrow> take (b - a) (drop a s))"

definition re_match :: "item list \<Rightarrow> string \<Rightarrow> mstate option" where
  "re_match p s = run s p (0, 0, 0)"

definition re_search :: "item list \<Rightarrow> string \<Rightarrow> (nat \<times> mstate) option" where
  "re_search p s =
     first_some (\<lambda>i. map_option (Pair i) (run s p (i, 0, 0))) [0..<Suc (length s)]"

text \<open>A literal under \<^verbatim>\<open>re.IGNORECASE\<close>, and the classes the patterns share.\<close>

definition ci :: "string \<Rightarrow> item list" where
  "ci w = map (\<lambda>c. Ch (In [to_upper c, to_lower c])) w"

definition lit :: "string \<Rightarrow> item list" where
  "lit w = map (\<lambda>c. Ch (In [c])) w"

definition dot :: cls where
  "dot = NotIn [newline]"

definition AZ09 :: cls where
  "AZ09 = In (upper @ digits)"

definition AZ09_i :: cls where
  "AZ09_i = In (upper @ lower @ digits)"

definition ws :: cls where
  "ws = In whitespace"

subsection \<open>Paths\<close>

text \<open>
  \<^verbatim>\<open>pathlib.Path\<close> in its POSIX flavour: an anchor (empty, one slash or two slashes) and the
  parts after it. \<^verbatim>\<open>Path(s)\<close> drops empty and \<^verbatim>\<open>.\<close> components; \<^verbatim>\<open>str(p)\<close> joins
  the parts again.
\<close>

datatype Path = Path (anchor: string) (parts: "string list")

fun split_sep :: "string \<Rightarrow> string list" where
  "split_sep [] = [[]]"
| "split_sep (c # cs) =
     (if c = CHR ''/'' then [] # split_sep cs
      else (case split_sep cs of [] \<Rightarrow> [[c]] | x # xs \<Rightarrow> (c # x) # xs))"

fun join_sep :: "string list \<Rightarrow> string" where
  "join_sep [] = []"
| "join_sep [x] = x"
| "join_sep (x # y # ys) = x @ ''/'' @ join_sep (y # ys)"

definition path_root :: "string \<Rightarrow> string" where
  "path_root s =
     (if take 2 s = ''//'' \<and> take 3 s \<noteq> ''///'' then ''//''
      else if take 1 s = ''/'' then ''/'' else [])"

definition Path_of :: "string \<Rightarrow> Path" where
  "Path_of s = Path (path_root s) (filter (\<lambda>x. x \<noteq> [] \<and> x \<noteq> ''.'') (split_sep s))"

definition str_of :: "Path \<Rightarrow> string" where
  "str_of p = (if anchor p = [] \<and> parts p = [] then ''.'' else anchor p @ join_sep (parts p))"

definition path_name :: "Path \<Rightarrow> string" where
  "path_name p = (if parts p = [] then [] else last (parts p))"

definition path_parent :: "Path \<Rightarrow> Path" where
  "path_parent p = Path (anchor p) (butlast (parts p))"

text \<open>\<^verbatim>\<open>p / s\<close> for a string \<^verbatim>\<open>s\<close>: an absolute \<^verbatim>\<open>s\<close> replaces \<^verbatim>\<open>p\<close>.\<close>

definition joinpath :: "Path \<Rightarrow> string \<Rightarrow> Path" where
  "joinpath p s =
     (let q = Path_of s
      in if anchor q \<noteq> [] then q else Path (anchor p) (parts p @ parts q))"

definition rfind :: "char \<Rightarrow> string \<Rightarrow> nat option" where
  "rfind c s = (case filter (\<lambda>i. s ! i = c) (rev [0..<length s]) of [] \<Rightarrow> None | i # _ \<Rightarrow> Some i)"

definition path_suffix :: "Path \<Rightarrow> string" where
  "path_suffix p =
     (let n = path_name p
      in case rfind CHR ''.'' n of
           None \<Rightarrow> []
         | Some i \<Rightarrow> if 0 < i \<and> Suc i < length n then drop i n else [])"

definition path_stem :: "Path \<Rightarrow> string" where
  "path_stem p =
     (let n = path_name p
      in case rfind CHR ''.'' n of
           None \<Rightarrow> n
         | Some i \<Rightarrow> if 0 < i \<and> Suc i < length n then take i n else n)"


subsection \<open>The file system as the helpers observe it\<close>

text \<open>
  A path string leads to nothing, to a readable file (observed through its size and the
  MD5 digest of its bytes) or to a node that \<^verbatim>\<open>stat\<close> accepts but \<^verbatim>\<open>open\<close> refuses (a
  directory, a file without read permission), observed through its size.
\<close>

datatype node = Regular nat string | Opaque nat

type_synonym filesystem = "string \<rightharpoonup> node"

definition path_exists :: "filesystem \<Rightarrow> Path \<Rightarrow> bool" where
  "path_exists fs p = (fs (str_of p) \<noteq> None)"

definition st_size :: "filesystem \<Rightarrow> Path \<Rightarrow> nat option" where
  "st_size fs p =
     (case fs (str_of p) of None \<Rightarrow> None | Some (Regular n d) \<Rightarrow> Some n | Some (Opaque n) \<Rightarrow> Some n)"

text \<open>
  \<^verbatim>\<open>_file_hash\<close>, in the definition that is in force when the helpers run (the second
  one of the module): an \<^verbatim>\<open>OSError\<close> gives the string \<^verbatim>\<open>__error_<path>\<close>.
\<close>

definition file_hash :: "filesystem \<Rightarrow> string \<Rightarrow> string" where
  "file_hash fs path_str =
     (case fs path_str of Some (Regular n d) \<Rightarrow> d | _ \<Rightarrow> ''__error_'' @ path_str)"

text \<open>\<^verbatim>\<open>_files_identical\<close>: a failing \<^verbatim>\<open>stat\<close> gives \<^verbatim>\<open>False\<close>.\<close>

definition files_identical :: "filesystem \<Rightarrow> Path \<Rightarrow> Path \<Rightarrow> bool" where
  "files_identical fs a b =
     (case (st_size fs a, st_size fs b) of
        (Some m, Some n) \<Rightarrow>
          if m \<noteq> n then False else file_hash fs (str_of a) = file_hash fs (str_of b)
      | _ \<Rightarrow> False)"

text \<open>The pattern \<^verbatim>\<open>^(.+?)_(\d+)$\<close> and the stem that \<^verbatim>\<open>_safe_dest\<close> suffixes.\<close>

definition NUMBERED_STEM :: "item list" where
  "NUMBERED_STEM = [Open, LazyPlus dot, Close, Ch (In ''_''), Plus (In digits), Eos]"

definition base_stem :: "string \<Rightarrow> string" where
  "base_stem stem =
     (case re_match NUMBERED_STEM stem of None \<Rightarrow> stem | Some m \<Rightarrow> group1 stem m)"

definition candidate :: "Path \<Rightarrow> nat \<Rightarrow> Path" where
  "candidate dst i =
     joinpath (path_parent dst) (base_stem (path_stem dst) @ ''_'' @ show_nat i @ path_suffix dst)"

text \<open>The loop of \<^verbatim>\<open>_safe_dest\<close> over \<^verbatim>\<open>range(1, 10000)\<close>; \<^verbatim>\<open>None\<close> when it falls through.\<close>

fun first_candidate :: "filesystem \<Rightarrow> Path \<Rightarrow> Path \<Rightarrow> nat list \<Rightarrow> (Path \<times> string) option" where
  "first_candidate fs src dst [] = None"
| "first_candidate fs src dst (i # rest) =
     (if \<not> path_exists fs (candidate dst i) then Some (candidate dst i, ''renamed'')
      else if files_identical fs src (candidate dst i) then Some (candidate dst i, ''skip'')
      else first_candidate fs src dst rest)"

definition safe_dest :: "filesystem \<Rightarrow> Path \<Rightarrow> Path \<Rightarrow> Path \<times> string" where
  "safe_dest fs src dst =
     (if \<not> path_exists fs dst then (dst, ''ok'')
      else if files_identical fs src dst then (dst, ''skip'')
      else (case first_candidate fs src dst [1..<10000] of
              Some r \<Rightarrow> r
            | None \<Rightarrow> (dst, ''ok'')))"

subsection \<open>The executor\<close>

text \<open>
  What the operating system answers to one operation of the executor: whether
  \<^verbatim>\<open>os.makedirs\<close> raises, whether the call number \<^verbatim>\<open>k\<close> (from 0) of \<^verbatim>\<open>shutil.copy2\<close> raises,
  whether the call number \<^verbatim>\<open>k\<close> of \<^verbatim>\<open>_log_safe\<close> raises (it writes and flushes one line of
  the JSONL log; with no log file open it returns at once and raises nothing), and whether
  the call number \<^verbatim>\<open>k\<close> of \<^verbatim>\<open>tqdm.write\<close> raises. An \<^verbatim>\<open>OSError\<close> is observed through its
  attribute \<^verbatim>\<open>winerror\<close> (absent on other platforms) and its message; any other exception
  through its message.
\<close>

datatype exn = OSError "int option" string | OtherException string

record os_answers =
  makedirs_raises :: "exn option"
  copy2_raises :: "nat \<Rightarrow> exn option"
  log_raises :: "nat \<Rightarrow> exn option"
  write_raises :: "nat \<Rightarrow> exn option"

definition exn_str :: "exn \<Rightarrow> string" where
  "exn_str e = (case e of OSError w msg \<Rightarrow> msg | OtherException msg \<Rightarrow> msg)"

text \<open>\<^verbatim>\<open>getattr(e, 'winerror', 0) == 32 or 'being used' in str(e)\<close>, for a caught \<^verbatim>\<open>OSError\<close>.\<close>

definition is_lock_error :: "exn \<Rightarrow> bool" where
  "is_lock_error e =
     (case e of OSError w msg \<Rightarrow> w = Some 32 \<or> contains msg ''being used''
              | OtherException msg \<Rightarrow> False)"

text \<open>
  The calls of the executor, in the order they happen; a call that raises is in the trace
  too. Delays are in seconds.
\<close>

datatype event =
    Makedirs string | Copy2 string string | Sleep rat | GcCollect
  | LogChange Change | Report string

definition RETRY_ATTEMPTS :: nat where
  "RETRY_ATTEMPTS = 5"

definition RETRY_BASE_DELAY :: rat where
  "RETRY_BASE_DELAY = 1 / 10"

text \<open>
  One run of \<^verbatim>\<open>_exec_copy\<close> as it goes: the ledger entry (mutated in place), the number of
  calls of \<^verbatim>\<open>_log_safe\<close> and of \<^verbatim>\<open>tqdm.write\<close> made so far, and the trace.
\<close>

record op_state =
  op_change :: Change
  op_logs :: nat
  op_writes :: nat
  op_trace :: "event list"

definition start :: "Change \<Rightarrow> op_state" where
  "start c = \<lparr>op_change = c, op_logs = 0, op_writes = 0, op_trace = []\<rparr>"

definition emit :: "event \<Rightarrow> op_state \<Rightarrow> op_state" where
  "emit ev st = st\<lparr>op_trace := op_trace st @ [ev]\<rparr>"

definition set_status :: "string \<Rightarrow> op_state \<Rightarrow> op_state" where
  "set_status s st = st\<lparr>op_change := (op_change st)\<lparr>status := s\<rparr>\<rparr>"

text \<open>
  \<^verbatim>\<open>_log_safe(jsonl_fh, c)\<close> and \<^verbatim>\<open>tqdm.write(msg)\<close>: the state after the call and the exception
  it raises, if any.
\<close>

definition log_safe :: "os_answers \<Rightarrow> op_state \<Rightarrow> op_state \<times> exn option" where
  "log_safe os st =
     (st\<lparr>op_logs := Suc (op_logs st), op_trace := op_trace st @ [LogChange (op_change st)]\<rparr>,
      log_raises os (op_logs st))"

definition tqdm_write :: "os_answers \<Rightarrow> string \<Rightarrow> op_state \<Rightarrow> op_state \<times> exn option" where
  "tqdm_write os msg st =
     (st\<lparr>op_writes := Suc (op_writes st), op_trace := op_trace st @ [Report msg]\<rparr>,
      write_raises os (op_writes st))"

definition error_line :: "Change \<Rightarrow> string \<Rightarrow> string \<Rightarrow> string" where
  "error_line c src_name msg = ''  ERROR ['' @ action c @ ''] '' @ src_name @ '': '' @ msg"

datatype loop_result = Done | Exhausted "exn option" | Raised exn

text \<open>
  The retry loop over \<^verbatim>\<open>range(_RETRY_ATTEMPTS)\<close>. The copy, the status \<^verbatim>\<open>done\<close> and the log
  call are inside the inner \<^verbatim>\<open>try\<close>: an \<^verbatim>\<open>OSError\<close> of any of them that is a lock error
  sleeps and goes on with the next attempt, any other exception leaves the loop at once.
\<close>

fun retry_loop ::
  "os_answers \<Rightarrow> string \<Rightarrow> string \<Rightarrow> exn option \<Rightarrow> nat list \<Rightarrow> op_state \<Rightarrow> op_state \<times> loop_result" where
  "retry_loop os s d last_err [] st = (st, Exhausted last_err)"
| "retry_loop os s d last_err (attempt # rest) st =
     (case copy2_raises os attempt of
        Some e \<Rightarrow>
          if is_lock_error e
          then retry_loop os s d (Some e) rest
                 (emit GcCollect (emit (Sleep (RETRY_BASE_DELAY * 2 ^ attempt)) (emit (Copy2 s d) st)))
          else (emit (Copy2 s d) st, Raised e)
      | None \<Rightarrow>
          (case log_safe os (set_status ''done'' (emit (Copy2 s d) st)) of
             (st1, None) \<Rightarrow> (st1, Done)
           | (st1, Some e) \<Rightarrow>
               if is_lock_error e
               then retry_loop os s d (Some e) rest
                      (emit GcCollect (emit (Sleep (RETRY_BASE_DELAY * 2 ^ attempt)) st1))
               else (st1, Raised e)))"

text \<open>
  The statements after the loop and those of the handler \<^verbatim>\<open>except Exception\<close>: the status
  \<^verbatim>\<open>failed\<close>, the log call and the error line. Neither is guarded: an exception of the log
  call or of \<^verbatim>\<open>tqdm.write\<close> goes on upwards.
\<close>

definition mark_failed :: "os_answers \<Rightarrow> string \<Rightarrow> string \<Rightarrow> op_state \<Rightarrow> op_state \<times> exn option" where
  "mark_failed os src_name msg st =
     (case log_safe os (set_status ''failed'' st) of
        (st1, Some e) \<Rightarrow> (st1, Some e)
      | (st1, None) \<Rightarrow> tqdm_write os (error_line (op_change st) src_name msg) st1)"

text \<open>
  The body of the outer \<^verbatim>\<open>try\<close> of \<^verbatim>\<open>_exec_copy\<close>, on the file system as it is when the
  operation starts: the state it reaches and the exception that leaves it, if any.
\<close>

definition exec_copy_body :: "filesystem \<Rightarrow> os_answers \<Rightarrow> Change \<Rightarrow> op_state \<times> exn option" where
  "exec_copy_body fs os c =
     (let src = Path_of (source c); dst = Path_of (destination c)
      in if \<not> path_exists fs src then log_safe os (set_status ''skipped'' (start c))
         else
           (case makedirs_raises os of
              Some e \<Rightarrow> (emit (Makedirs (str_of (path_parent dst))) (start c), Some e)
            | None \<Rightarrow>
                (case safe_dest fs src dst of
                   (actual, st) \<Rightarrow>
                     if st = ''skip''
                     then log_safe os
                            (set_status ''skipped'' (emit (Makedirs (str_of (path_parent dst))) (start c)))
                     else
                       (case retry_loop os (str_of src) (str_of actual) None [0..<RETRY_ATTEMPTS]
                               (emit (Makedirs (str_of (path_parent dst)))
                                  (start (if st = ''renamed'' then c\<lparr>destination := str_of actual\<rparr> else c))) of
                          (st1, Done) \<Rightarrow> (st1, None)
                        | (st1, Raised e) \<Rightarrow> (st1, Some e)
                        | (st1, Exhausted last_err) \<Rightarrow>
                            mark_failed os (path_name src)
                              (case last_err of None \<Rightarrow> ''None'' | Some e \<Rightarrow> exn_str e) st1))))"

text \<open>
  \<^verbatim>\<open>_exec_copy\<close>: the state it ends in, and the exception that leaves the function, if any.
\<close>

definition exec_copy :: "filesystem \<Rightarrow> os_answers \<Rightarrow> Change \<Rightarrow> op_state \<times> exn option" where
  "exec_copy fs os c =
     (case exec_copy_body fs os c of
        (st, None) \<Rightarrow> (st, None)
      | (st, Some e) \<Rightarrow> mark_failed os (path_name (Path_of (source c))) (exn_str e) st)"

text \<open>
  The loop of \<^verbatim>\<open>Ledger.execute\<close> from the entry number \<^verbatim>\<open>i\<close> on. The operation on the entry
  number \<^verbatim>\<open>j\<close> sees the file system and the answers \<^verbatim>\<open>env j\<close>. With more than one worker the
  consecutive \<^verbatim>\<open>copy_file\<close> entries form a batch for a thread pool: every entry of the batch
  is run (leaving the \<^verbatim>\<open>with\<close> block waits for all of them) and \<^verbatim>\<open>f.result()\<close> raises again
  the exception of the first future, in the order \<^verbatim>\<open>as_completed\<close> yields them, whose call
  raised. That order is the parameter \<^verbatim>\<open>completed\<close>, from the entry numbers of a batch to
  the same numbers in completion order. The result is the entries after the run, the
  traces of the operations in ledger order (those of one batch overlap in time), and the
  exception that ended the run, if any: nothing catches an exception of \<^verbatim>\<open>os.makedirs\<close> or
  of the log call of a \<^verbatim>\<open>create_folder\<close> entry, nor one that leaves \<^verbatim>\<open>_exec_copy\<close>.
\<close>

function execute_loop ::
  "nat \<Rightarrow> (nat list \<Rightarrow> nat list) \<Rightarrow> (nat \<Rightarrow> filesystem \<times> os_answers) \<Rightarrow> nat \<Rightarrow> Change list
     \<Rightarrow> Change list \<times> event list list \<times> exn option" where
  "execute_loop workers completed env i [] = ([], [], None)"
| "execute_loop workers completed env i (c # cs) =
     (if 1 < workers \<and> action c = ''copy_file''
      then
        (let batch = c # takeWhile (\<lambda>x. action x = ''copy_file'') cs;
             rest = dropWhile (\<lambda>x. action x = ''copy_file'') cs;
             rs = map (\<lambda>(j, b). exec_copy (fst (env j)) (snd (env j)) b)
                    (zip [i..<i + length batch] batch)
         in case List.map_filter (\<lambda>j. snd (rs ! (j - i))) (completed [i..<i + length batch]) of
              e # es \<Rightarrow> (map (\<lambda>r. op_change (fst r)) rs @ rest, map (\<lambda>r. op_trace (fst r)) rs, Some e)
            | [] \<Rightarrow>
                (case execute_loop workers completed env (i + length batch) rest of
                   (cs', tr, r) \<Rightarrow>
                     (map (\<lambda>r. op_change (fst r)) rs @ cs', map (\<lambda>r. op_trace (fst r)) rs @ tr, r)))
      else if action c = ''create_folder''
      then
        (case makedirs_raises (snd (env i)) of
           Some e \<Rightarrow> (c # cs, [[Makedirs (str_of (Path_of (destination c)))]], Some e)
         | None \<Rightarrow>
             (case log_raises (snd (env i)) 0 of
                Some e \<Rightarrow>
                  (c\<lparr>status := ''done''\<rparr> # cs,
                   [[Makedirs (str_of (Path_of (destination c))), LogChange (c\<lparr>status := ''done''\<rparr>)]],
                   Some e)
              | None \<Rightarrow>
                  (case execute_loop workers completed env (Suc i) cs of
                     (cs', tr, r) \<Rightarrow>
                       (c\<lparr>status := ''done''\<rparr> # cs',
                        [Makedirs (str_of (Path_of (destination c))), LogChange (c\<lparr>status := ''done''\<rparr>)] # tr,
                        r))))
      else if action c = ''copy_file''
      then
        (case exec_copy (fst (env i)) (snd (env i)) c of
           (st, Some e) \<Rightarrow> (op_change st # cs, [op_trace st], Some e)
         | (st, None) \<Rightarrow>
             (case execute_loop workers completed env (Suc i) cs of
                (cs', tr, r) \<Rightarrow> (op_change st # cs', op_trace st # tr, r)))
      else
        (case execute_loop workers completed env (Suc i) cs of
           (cs', tr, r) \<Rightarrow> (c # cs', [] # tr, r)))"
  by pat_completeness auto

termination
  by (relation "measure (\<lambda>(workers, completed, env, i, cs). length cs)")
     (auto simp: less_Suc_eq_le length_dropWhile_le)

declare execute_loop.simps [simp del]

text \<open>
  \<^verbatim>\<open>Ledger.execute\<close>. \<^verbatim>\<open>jsonl\<close> says whether a \<^verbatim>\<open>jsonl_path\<close> is given and \<^verbatim>\<open>open_raises\<close>
  what making its folder and opening the file raise, if anything: that exception is raised
  before the loop. With no log file the log calls return at once, so none of them raises.
  A dry run touches nothing.
\<close>

definition mute_log :: "(nat \<Rightarrow> filesystem \<times> os_answers) \<Rightarrow> nat \<Rightarrow> filesystem \<times> os_answers" where
  "mute_log env j = (fst (env j), (snd (env j))\<lparr>log_raises := (\<lambda>k. None)\<rparr>)"

definition execute ::
  "bool \<Rightarrow> bool \<Rightarrow> exn option \<Rightarrow> nat \<Rightarrow> (nat list \<Rightarrow> nat list)
     \<Rightarrow> (nat \<Rightarrow> filesystem \<times> os_answers) \<Rightarrow> Ledger
     \<Rightarrow> Ledger \<times> event list list \<times> exn option" where
  "execute dry_run jsonl open_raises workers completed env L =
     (if dry_run then (L, [], None)
      else if jsonl \<and> open_raises \<noteq> None then (L, [], open_raises)
      else (case execute_loop workers completed (if jsonl then env else mute_log env) 0 (changes L) of
              (cs, tr, r) \<Rightarrow> (L\<lparr>changes := cs\<rparr>, tr, r)))"

text \<open>A file system in which every path but one leads to a file that differs from the source.\<close>

definition crowded_fs :: filesystem where
  "crowded_fs p =
     (if p = ''in/doc.pdf'' then Some (Regular 3 ''9a0364b9e99bb480dd25e1f0284c8555'')
      else if p = ''out/doc_10000.pdf'' then None
      else Some (Regular 4 ''e2fc714c4727ee9395f324cd2e7f331f''))"

text \<open>A small output folder: one source, a differing file, an identical file, one taken suffix.\<close>

definition demo_fs :: filesystem where
  "demo_fs p =
     (if p = ''in/a.pdf'' then Some (Regular 3 ''9a0364b9e99bb480dd25e1f0284c8555'')
      else if p = ''out/a.pdf'' then Some (Regular 3 ''e2fc714c4727ee9395f324cd2e7f331f'')
      else if p = ''out/a_1.pdf'' then Some (Regular 5 ''0cc175b9c0f1b6a831c399e269772661'')
      else if p = ''out/b.pdf'' then Some (Regular 3 ''9a0364b9e99bb480dd25e1f0284c8555'')
      else if p = ''out/r_7.pdf'' then Some (Regular 4 ''e2fc714c4727ee9395f324cd2e7f331f'')
      else None)"

text \<open>The events of the attempts that ended in a lock error, and what a trace shows of them.\<close>

definition lock_steps :: "string \<Rightarrow> string \<Rightarrow> nat list \<Rightarrow> event list" where
  "lock_steps s d ks = concat (map (\<lambda>k. [Copy2 s d, Sleep (RETRY_BASE_DELAY * 2 ^ k), GcCollect]) ks)"

definition all_locked :: "(nat \<Rightarrow> exn option) \<Rightarrow> nat list \<Rightarrow> bool" where
  "all_locked cp ks = list_all (\<lambda>k. case cp k of None \<Rightarrow> False | Some e \<Rightarrow> is_lock_error e) ks"

fun sleeps :: "event list \<Rightarrow> rat list" where
  "sleeps [] = []"
| "sleeps (Sleep d # ev) = d # sleeps ev"
| "sleeps (e # ev) = sleeps ev"

fun copy_calls :: "event list \<Rightarrow> nat" where
  "copy_calls [] = 0"
| "copy_calls (Copy2 s d # ev) = Suc (copy_calls ev)"
| "copy_calls (e # ev) = copy_calls ev"

text \<open>The call number \<^verbatim>\<open>k\<close> of \<^verbatim>\<open>shutil.copy2\<close> fails with a sharing violation.\<close>

definition locked_at :: "os_answers \<Rightarrow> nat \<Rightarrow> bool" where
  "locked_at os k =
     (\<exists>w msg. copy2_raises os k = Some (OSError w msg) \<and> (w = Some 32 \<or> contains msg ''being used''))"

text \<open>No call of \<^verbatim>\<open>_log_safe\<close> and no call of \<^verbatim>\<open>tqdm.write\<close> raises.\<close>

definition quiet_log :: "os_answers \<Rightarrow> bool" where
  "quiet_log os = (\<forall>k. log_raises os k = None \<and> write_raises os k = None)"

text \<open>What one ledger entry becomes when the operation on the entry number \<^verbatim>\<open>j\<close> handles it.\<close>

definition entry_result :: "(nat \<Rightarrow> filesystem \<times> os_answers) \<Rightarrow> nat \<Rightarrow> Change \<Rightarrow> Change" where
  "entry_result env j c =
     (if action c = ''create_folder'' then c\<lparr>status := ''done''\<rparr>
      else if action c = ''copy_file'' then op_change (fst (exec_copy (fst (env j)) (snd (env j)) c))
      else c)"

text \<open>
  Operating systems: one that always reports a lock, one that does so twice, one that then
  denies access, one whose output volume is full.
\<close>

definition no_raise :: "nat \<Rightarrow> exn option" where
  "no_raise k = None"

definition always_locked :: os_answers where
  "always_locked =
     \<lparr>makedirs_raises = None,
      copy2_raises = (\<lambda>k. Some (OSError (Some 32) ''[WinError 32] sharing violation'')),
      log_raises = no_raise, write_raises = no_raise\<rparr>"

definition locked_twice :: os_answers where
  "locked_twice =
     \<lparr>makedirs_raises = None,
      copy2_raises = (\<lambda>k. if k < 2 then Some (OSError None ''file is being used by another process'')
                           else None),
      log_raises = no_raise, write_raises = no_raise\<rparr>"

definition locked_then_denied :: os_answers where
  "locked_then_denied =
     \<lparr>makedirs_raises = None,
      copy2_raises = (\<lambda>k. if k < 1 then Some (OSError (Some 32) ''sharing violation'')
                           else Some (OSError (Some 5) ''Access is denied'')),
      log_raises = no_raise, write_raises = no_raise\<rparr>"

definition willing :: os_answers where
  "willing = \<lparr>makedirs_raises = None, copy2_raises = no_raise, log_raises = no_raise, write_raises = no_raise\<rparr>"

definition disk_full :: exn where
  "disk_full = OSError None ''[Errno 28] No space left on device''"

definition volume_full :: os_answers where
  "volume_full =
     \<lparr>makedirs_raises = None, copy2_raises = (\<lambda>k. Some disk_full),
      log_raises = (\<lambda>k. Some disk_full), write_raises = no_raise\<rparr>"

definition demo_copy :: Change where
  "demo_copy = mk_change ''copy_file'' ''in/a.pdf'' ''out/c.pdf'' [] [] ''V''"

definition demo_folder :: Change where
  "demo_folder = mk_change ''create_folder'' [] ''out/W'' [] [] ''W''"

definition demo_env :: "nat \<Rightarrow> filesystem \<times> os_answers" where
  "demo_env j = (demo_fs, if j = 0 then locked_then_denied else locked_twice)"

definition full_env :: "nat \<Rightarrow> filesystem \<times> os_answers" where
  "full_env j = (demo_fs, if j = 0 then volume_full else willing)"

definition ledger_order :: "nat list \<Rightarrow> nat list" where
  "ledger_order js = js"

text \<open>What a match of the numbered-stem pattern with its underscore at the position \<^verbatim>\<open>n\<close> amounts to.\<close>

definition numbered_at :: "string \<Rightarrow> nat \<Rightarrow> nat \<Rightarrow> bool" where
  "numbered_at s n k =
     (1 \<le> n \<and> n < length s \<and> n \<le> span dot s 0 \<and> s ! n = CHR ''_''
      \<and> 1 \<le> k \<and> k \<le> span (In digits) s (Suc n)
      \<and> (Suc n + k = length s \<or> (Suc (Suc n + k) = length s \<and> s ! (Suc n + k) = newline)))"

text \<open>
  The state of \<^verbatim>\<open>_exec_copy\<close> when the retry loop starts: the folder is made and a renamed
  destination is written into the entry.
\<close>

definition ready :: "Change \<Rightarrow> Path \<Rightarrow> string \<Rightarrow> op_state" where
  "ready c actual st =
     \<lparr>op_change = (if st = ''renamed'' then c\<lparr>destination := str_of actual\<rparr> else c),
      op_logs = 0, op_writes = 0,
      op_trace = [Makedirs (str_of (path_parent (Path_of (destination c))))]\<rparr>"

text \<open>What every entry becomes in a run that is not cut short.\<close>

fun run_results :: "(nat \<Rightarrow> filesystem \<times> os_answers) \<Rightarrow> nat \<Rightarrow> Change list \<Rightarrow> Change list" where
  "run_results env i [] = []"
| "run_results env i (c # cs) = entry_result env i c # run_results env (Suc i) cs"

text \<open>A copy onto an identical file, a ledger of two copies around a folder, and its second copy.\<close>

definition demo_skip :: Change where
  "demo_skip = mk_change ''copy_file'' ''in/a.pdf'' ''out/b.pdf'' [] [] []"

definition demo_ledger :: Ledger where
  "demo_ledger =
     plan_adds
       [(''copy_file'', ''in/a.pdf'', ''out/c.pdf'', [], [], ''V''),
        (''create_folder'', [], ''out/W'', [], [], ''W''),
        (''copy_file'', ''in/a.pdf'', ''out/d.pdf'', [], [], ''W'')]"

definition demo_copy2 :: Change where
  "demo_copy2 = mk_change ''copy_file'' ''in/a.pdf'' ''out/d.pdf'' [] [] ''W''"

subsection \<open>VIN extraction\<close>

text \<open>\<^verbatim>\<open>VIN_PATTERN\<close>: \<^verbatim>\<open>(?<![A-Z0-9])([A-Z0-9]{17})(?![A-Z0-9])\<close>, compiled without flags.\<close>

definition VIN_PATTERN :: "item list" where
  "VIN_PATTERN = [NotBehind AZ09, Open, Rep 17 AZ09, Close, NotAhead AZ09]"

text \<open>
  \<^verbatim>\<open>pattern.findall(s)\<close> for a pattern with one group: the scan takes the leftmost match
  from the current position and goes on at its end. (The matches of the patterns used
  here are never empty; after an empty match the scan would move on by one character.)
\<close>

function findall_from :: "item list \<Rightarrow> string \<Rightarrow> nat \<Rightarrow> string list" where
  "findall_from p s i =
     (if length s < i then []
      else (case run s p (i, 0, 0) of
              None \<Rightarrow> findall_from p s (Suc i)
            | Some (e, a, b) \<Rightarrow> group1 s (e, a, b) # findall_from p s (if e \<le> i then Suc i else e)))"
  by pat_completeness auto

termination
  by (relation "measure (\<lambda>(p, s, i). Suc (length s) - i)") auto

declare findall_from.simps [simp del]

definition findall :: "item list \<Rightarrow> string \<Rightarrow> string list" where
  "findall p s = findall_from p s 0"

definition is_valid_vin :: "string \<Rightarrow> bool" where
  "is_valid_vin s = (if length s \<noteq> 17 then False else list_ex py_isalpha s \<and> list_ex py_isdigit s)"

definition extract_all_vins :: "string \<Rightarrow> string list" where
  "extract_all_vins fn = filter is_valid_vin (findall VIN_PATTERN fn)"

text \<open>What C3 says of a returned VIN, with the neighbours tested by a given predicate.\<close>

definition vin_window :: "(char \<Rightarrow> bool) \<Rightarrow> string \<Rightarrow> string \<Rightarrow> bool" where
  "vin_window joins fn v =
     (length v = 17
      \<and> list_all (\<lambda>c. c \<in> set upper \<or> c \<in> set digits) v
      \<and> list_ex (\<lambda>c. c \<in> set upper) v
      \<and> list_ex (\<lambda>c. c \<in> set digits) v
      \<and> (\<exists>pre post. fn = pre @ v @ post
            \<and> (pre = [] \<or> \<not> joins (last pre)) \<and> (post = [] \<or> \<not> joins (hd post))))"

subsection \<open>Rename and dedup of one group\<close>

record rename_stats =
  renamed :: nat
  deduped :: nat

type_synonym original_names = "string \<times> string \<rightharpoonup> string"

text \<open>
  \<^verbatim>\<open>by_hash[h].append(idx)\<close> on a \<^verbatim>\<open>defaultdict(list)\<close>: the dict keeps its keys in the
  order of their first insertion.
\<close>

fun group_append :: "'k \<Rightarrow> 'v \<Rightarrow> ('k \<times> 'v list) list \<Rightarrow> ('k \<times> 'v list) list" where
  "group_append k v [] = [(k, [v])]"
| "group_append k v ((k', vs) # d) =
     (if k = k' then (k', vs @ [v]) # d else (k', vs) # group_append k v d)"

definition by_hash_of :: "filesystem \<Rightarrow> Change list \<Rightarrow> nat list \<Rightarrow> (string \<times> nat list) list" where
  "by_hash_of fs cs indices =
     foldl (\<lambda>d idx. group_append (file_hash fs (source (cs ! idx))) idx d) [] indices"

text \<open>
  The renaming of one keeper: \<^verbatim>\<open>original_names[(c.vin, new_name)] = dst.name\<close> and
  \<^verbatim>\<open>c.destination = str(dst.parent / new_name)\<close>, on the entry of the ledger's own list.
\<close>

definition rename_entry :: "string \<Rightarrow> nat \<Rightarrow> Change list \<Rightarrow> Change list" where
  "rename_entry new_name keeper cs =
     cs[keeper := (cs ! keeper)\<lparr>destination :=
          str_of (joinpath (path_parent (Path_of (destination (cs ! keeper)))) new_name)\<rparr>]"

definition note_original :: "string \<Rightarrow> nat \<Rightarrow> Change list \<Rightarrow> original_names \<Rightarrow> original_names" where
  "note_original new_name keeper cs onames =
     onames((vin (cs ! keeper), new_name) \<mapsto> path_name (Path_of (destination (cs ! keeper))))"

type_synonym dedup_state = "Change list \<times> nat set \<times> rename_stats \<times> original_names"

text \<open>
  The loop over the hash classes when there are several, with its counter. \<^verbatim>\<open>None\<close>
  stands for the \<^verbatim>\<open>IndexError\<close> of \<^verbatim>\<open>group[0]\<close> on an empty group.
\<close>

fun dedup_groups :: "string \<Rightarrow> (string \<times> nat list) list \<Rightarrow> nat \<Rightarrow> dedup_state \<Rightarrow> dedup_state option" where
  "dedup_groups base [] counter st = Some st"
| "dedup_groups base ((h, []) # rest) counter st = None"
| "dedup_groups base ((h, keeper # others) # rest) counter (cs, rm, stats, onames) =
     dedup_groups base rest (Suc counter)
       (rename_entry (base @ ''_'' @ show_nat (Suc counter) @ ''.pdf'') keeper cs,
        rm \<union> set others,
        stats\<lparr>deduped := deduped stats + length others, renamed := Suc (renamed stats)\<rparr>,
        note_original (base @ ''_'' @ show_nat (Suc counter) @ ''.pdf'') keeper cs onames)"

text \<open>
  \<^verbatim>\<open>_rename_dedup_group\<close>. It returns the set of indices to remove; the changes, the
  statistics and the original names it mutates are returned with it. \<^verbatim>\<open>None\<close> stands for
  an \<^verbatim>\<open>IndexError\<close>: the hashing loop reads \<^verbatim>\<open>changes[idx]\<close> for every index first.
\<close>

definition rename_dedup_group ::
  "filesystem \<Rightarrow> Change list \<Rightarrow> nat list \<Rightarrow> string \<Rightarrow> rename_stats \<Rightarrow> original_names
     \<Rightarrow> dedup_state option" where
  "rename_dedup_group fs cs indices base_name stats onames =
     (if indices = [] then Some (cs, {}, stats, onames)
      else if \<not> list_all (\<lambda>idx. idx < length cs) indices then None
      else
        (case by_hash_of fs cs indices of
           [(h, grp)] \<Rightarrow>
             (case grp of
                [] \<Rightarrow> None
              | keeper # others \<Rightarrow>
                  Some (rename_entry (base_name @ ''.pdf'') keeper cs,
                        set others,
                        stats\<lparr>deduped := deduped stats + length others, renamed := Suc (renamed stats)\<rparr>,
                        note_original (base_name @ ''.pdf'') keeper cs onames))
         | by_hash \<Rightarrow> dedup_groups base_name by_hash 0 (cs, {}, stats, onames)))"

text \<open>
  The hash classes of a group in the words of the specification: the distinct hashes in
  the order they are first met, and the members of one class in group order.
\<close>

definition first_seen :: "'a list \<Rightarrow> 'a list" where
  "first_seen xs = rev (remdups (rev xs))"

definition source_hash :: "filesystem \<Rightarrow> Change list \<Rightarrow> nat \<Rightarrow> string" where
  "source_hash fs cs i = file_hash fs (source (cs ! i))"

definition hash_classes :: "filesystem \<Rightarrow> Change list \<Rightarrow> nat list \<Rightarrow> string list" where
  "hash_classes fs cs indices = first_seen (map (source_hash fs cs) indices)"

definition hash_class :: "filesystem \<Rightarrow> Change list \<Rightarrow> nat list \<Rightarrow> string \<Rightarrow> nat list" where
  "hash_class fs cs indices h = filter (\<lambda>i. source_hash fs cs i = h) indices"

definition class_keepers :: "filesystem \<Rightarrow> Change list \<Rightarrow> nat list \<Rightarrow> nat list" where
  "class_keepers fs cs indices = map (\<lambda>h. hd (hash_class fs cs indices h)) (hash_classes fs cs indices)"

text \<open>Entry \<^verbatim>\<open>i\<close> of the new list is entry \<^verbatim>\<open>i\<close> of the old one moved to the basename \<^verbatim>\<open>name\<close>.\<close>

definition renamed_to :: "Change list \<Rightarrow> Change list \<Rightarrow> nat \<Rightarrow> string \<Rightarrow> bool" where
  "renamed_to cs cs' i name =
     (cs' ! i = (cs ! i)\<lparr>destination :=
                  str_of (joinpath (path_parent (Path_of (destination (cs ! i)))) name)\<rparr>
      \<and> path_name (Path_of (destination (cs' ! i))) = name)"

text \<open>A name that \<^verbatim>\<open>Path\<close> reads as one part: not empty, not \<^verbatim>\<open>.\<close>, free of slashes.\<close>

definition plain_name :: "string \<Rightarrow> bool" where
  "plain_name n = (n \<noteq> [] \<and> n \<noteq> ''.'' \<and> CHR ''/'' \<notin> set n)"

text \<open>An entry with its destination moved to another basename in the same folder.\<close>

definition moved :: "Change \<Rightarrow> string \<Rightarrow> Change" where
  "moved c name = c\<lparr>destination := str_of (joinpath (path_parent (Path_of (destination c))) name)\<rparr>"

text \<open>Three planned copies for one VIN; the first two sources have the same bytes.\<close>

definition dedup_fs :: filesystem where
  "dedup_fs p =
     (if p = ''in/a/Contract Cadru.pdf'' then Some (Regular 5 ''0cc175b9c0f1b6a831c399e269772661'')
      else if p = ''in/b/ctr cadru copy.pdf'' then Some (Regular 5 ''0cc175b9c0f1b6a831c399e269772661'')
      else if p = ''in/c/Contract Cadru v2.pdf'' then Some (Regular 7 ''92eb5ffee6ae2fec3ad71c777531578f'')
      else None)"

definition dedup_changes :: "Change list" where
  "dedup_changes =
     [mk_change ''copy_file'' ''in/a/Contract Cadru.pdf'' ''out/V/Contract Cadru.pdf'' [] [] ''V'',
      mk_change ''copy_file'' ''in/b/ctr cadru copy.pdf'' ''out/V/ctr cadru copy.pdf'' [] [] ''V'',
      mk_change ''copy_file'' ''in/c/Contract Cadru v2.pdf'' ''out/V/Contract Cadru v2.pdf'' [] [] ''V'']"

subsection \<open>Parent VIN and keeper election\<close>

text \<open>
  \<^verbatim>\<open>FL_PATTERN\<close> and \<^verbatim>\<open>SERIEC_PATTERN\<close> (both with \<^verbatim>\<open>re.IGNORECASE\<close>) and the pattern
  \<^verbatim>\<open>^([A-Z0-9]{17})[\s_\-]\<close> of the VIN prefix.
\<close>

definition FL_PATTERN :: "item list" where
  "FL_PATTERN =
     ci ''FL'' @ [Star ws, Ch (In ''-''), Star ws, LazyPlus dot, Star ws, Ch (In ''-''), Star ws,
                 Open, Rep 17 AZ09_i, Close, Star dot, Ch (In ''.'')] @ ci ''pdf'' @ [Eos]"

definition SERIEC_PATTERN :: "item list" where
  "SERIEC_PATTERN = ci ''seriec_'' @ [Open, Rep 17 AZ09_i, Close, Ch (In ''_'')]"

definition PREFIX_PATTERN :: "item list" where
  "PREFIX_PATTERN = [Open, Rep 17 AZ09, Close, Ch (In (whitespace @ ''_-''))]"

text \<open>One item of \<^verbatim>\<open>folder.iterdir()\<close>: its name and what \<^verbatim>\<open>is_file\<close> and \<^verbatim>\<open>is_dir\<close> answer.\<close>

record dir_entry =
  entry_name :: string
  entry_is_file :: bool
  entry_is_dir :: bool

definition name_suffix :: "string \<Rightarrow> string" where
  "name_suffix n = path_suffix (Path [] [n])"

definition is_pdf :: "dir_entry \<Rightarrow> bool" where
  "is_pdf e = (entry_is_file e \<and> py_lower (name_suffix (entry_name e)) = ''.pdf'')"

text \<open>
  The loop of \<^verbatim>\<open>get_parent_vin\<close> with its three lists; every item goes to the first
  pattern that matches its name.
\<close>

fun scan_pools ::
  "dir_entry list \<Rightarrow> string list \<times> string list \<times> string list
     \<Rightarrow> string list \<times> string list \<times> string list" where
  "scan_pools [] acc = acc"
| "scan_pools (e # rest) (fl_vins, seriec_vins, other_vins) =
     (if \<not> is_pdf e then scan_pools rest (fl_vins, seriec_vins, other_vins)
      else
        (case re_match FL_PATTERN (entry_name e) of
           Some m \<Rightarrow> scan_pools rest (fl_vins @ [group1 (entry_name e) m], seriec_vins, other_vins)
         | None \<Rightarrow>
             (case re_match SERIEC_PATTERN (entry_name e) of
                Some m \<Rightarrow> scan_pools rest (fl_vins, seriec_vins @ [group1 (entry_name e) m], other_vins)
              | None \<Rightarrow>
                  (case re_match PREFIX_PATTERN (entry_name e) of
                     Some m \<Rightarrow>
                       if is_valid_vin (group1 (entry_name e) m)
                       then scan_pools rest (fl_vins, seriec_vins, other_vins @ [group1 (entry_name e) m])
                       else scan_pools rest (fl_vins, seriec_vins, other_vins)
                   | None \<Rightarrow> scan_pools rest (fl_vins, seriec_vins, other_vins)))))"

text \<open>
  \<^verbatim>\<open>max(iterable, key=...)\<close> keeps the first of the largest elements; \<^verbatim>\<open>None\<close> stands for
  the \<^verbatim>\<open>ValueError\<close> on an empty iterable.
\<close>

fun max_by :: "('a \<Rightarrow> nat) \<Rightarrow> 'a list \<Rightarrow> 'a option" where
  "max_by key [] = None"
| "max_by key (x # xs) = Some (foldl (\<lambda>best y. if key best < key y then y else best) x xs)"

text \<open>
  \<^verbatim>\<open>max(set(pool), key=pool.count)\<close>. The order in which Python iterates over a set of
  strings depends on the hash seed of the process: it is the parameter \<^verbatim>\<open>set_iter\<close>,
  from the elements put into the set to the elements in iteration order.
\<close>

definition mode_of :: "(string list \<Rightarrow> string list) \<Rightarrow> string list \<Rightarrow> string option" where
  "mode_of set_iter pool = max_by (count_list pool) (set_iter pool)"

text \<open>\<^verbatim>\<open>get_parent_vin\<close>; a listing \<^verbatim>\<open>None\<close> stands for the \<^verbatim>\<open>PermissionError\<close>.\<close>

definition get_parent_vin ::
  "(string list \<Rightarrow> string list) \<Rightarrow> dir_entry list option \<Rightarrow> string option" where
  "get_parent_vin set_iter listing =
     (case listing of
        None \<Rightarrow> None
      | Some items \<Rightarrow>
          (case scan_pools items ([], [], []) of
             (fl_vins, seriec_vins, other_vins) \<Rightarrow>
               if fl_vins \<noteq> [] then mode_of set_iter fl_vins
               else if seriec_vins \<noteq> [] then mode_of set_iter seriec_vins
               else if other_vins \<noteq> [] then mode_of set_iter other_vins
               else None))"

text \<open>
  The parent VIN of \<^verbatim>\<open>plan_multi_car\<close>: \<^verbatim>\<open>if not parent_vin\<close> holds for \<^verbatim>\<open>None\<close> and
  for the empty string; \<^verbatim>\<open>sorted(...)[0]\<close> raises \<^verbatim>\<open>IndexError\<close> (\<^verbatim>\<open>None\<close> here) on an empty
  list of VIN subdirectories.
\<close>

definition multi_car_parent ::
  "(string list \<Rightarrow> string list) \<Rightarrow> dir_entry list option \<Rightarrow> string list \<Rightarrow> string option" where
  "multi_car_parent set_iter listing vin_subdirs =
     (case get_parent_vin set_iter listing of
        Some v \<Rightarrow> if v \<noteq> [] then Some v
                  else (case sort vin_subdirs of [] \<Rightarrow> None | x # xs \<Rightarrow> Some x)
      | None \<Rightarrow> (case sort vin_subdirs of [] \<Rightarrow> None | x # xs \<Rightarrow> Some x))"

text \<open>The pools in the words of the planner: which pool a PDF name feeds, and with what.\<close>

definition pool_of :: "string \<Rightarrow> (nat \<times> string) option" where
  "pool_of fn =
     (case re_match FL_PATTERN fn of
        Some m \<Rightarrow> Some (1, group1 fn m)
      | None \<Rightarrow>
          (case re_match SERIEC_PATTERN fn of
             Some m \<Rightarrow> Some (2, group1 fn m)
           | None \<Rightarrow>
               (case re_match PREFIX_PATTERN fn of
                  Some m \<Rightarrow> if is_valid_vin (group1 fn m) then Some (3, group1 fn m) else None
                | None \<Rightarrow> None)))"

definition feeds :: "nat \<Rightarrow> string \<Rightarrow> string list" where
  "feeds k fn = (case pool_of fn of Some (j, v) \<Rightarrow> if j = k then [v] else [] | None \<Rightarrow> [])"

definition pool :: "nat \<Rightarrow> dir_entry list \<Rightarrow> string list" where
  "pool k items = concat (map (\<lambda>e. feeds k (entry_name e)) (filter is_pdf items))"

definition first_pool :: "dir_entry list \<Rightarrow> string list" where
  "first_pool items =
     (if pool 1 items \<noteq> [] then pool 1 items
      else if pool 2 items \<noteq> [] then pool 2 items else pool 3 items)"

text \<open>The pools as C5 words them: every file feeds them, whatever its suffix.\<close>

definition spec_pool :: "nat \<Rightarrow> dir_entry list \<Rightarrow> string list" where
  "spec_pool k items = concat (map (\<lambda>e. feeds k (entry_name e)) (filter entry_is_file items))"

definition is_mode :: "string list \<Rightarrow> string \<Rightarrow> bool" where
  "is_mode P v = (v \<in> set P \<and> (\<forall>w. count_list P w \<le> count_list P v))"

text \<open>An iteration order of sets: every element once.\<close>

definition set_iteration :: "(string list \<Rightarrow> string list) \<Rightarrow> bool" where
  "set_iteration it = (\<forall>xs. set (it xs) = set xs \<and> distinct (it xs))"

definition no_caps :: "item list \<Rightarrow> bool" where
  "no_caps p = list_all (\<lambda>x. x \<noteq> Open \<and> x \<noteq> Close) p"

text \<open>Folder listings: an FL form and a seriec scan; a text file only; a seriec text file.\<close>

definition multi_items :: "dir_entry list" where
  "multi_items =
     [\<lparr>entry_name = ''FL - CAR - AAAAAAAAAAAAAAA11.pdf'', entry_is_file = True, entry_is_dir = False\<rparr>,
      \<lparr>entry_name = ''seriec_BBBBBBBBBBBBBBB22_doc.pdf'', entry_is_file = True, entry_is_dir = False\<rparr>,
      \<lparr>entry_name = ''CCCCCCCCCCCCCCC33'', entry_is_file = False, entry_is_dir = True\<rparr>]"

definition notes_items :: "dir_entry list" where
  "notes_items = [\<lparr>entry_name = ''notes.txt'', entry_is_file = True, entry_is_dir = False\<rparr>]"

definition txt_items :: "dir_entry list" where
  "txt_items =
     [\<lparr>entry_name = ''seriec_AAAAAAAAAAAAAAA11_doc.txt'', entry_is_file = True, entry_is_dir = False\<rparr>]"

text \<open>\<^verbatim>\<open>d[k] = v\<close> on a dict and \<^verbatim>\<open>counts[k] += 1\<close> on a \<^verbatim>\<open>defaultdict(int)\<close>, in insertion order.\<close>

fun dict_set :: "'k \<Rightarrow> 'v \<Rightarrow> ('k \<times> 'v) list \<Rightarrow> ('k \<times> 'v) list" where
  "dict_set k v [] = [(k, v)]"
| "dict_set k v ((k', v') # d) = (if k = k' then (k', v) # d else (k', v') # dict_set k v d)"

fun bump :: "'k \<Rightarrow> ('k \<times> nat) list \<Rightarrow> ('k \<times> nat) list" where
  "bump k [] = [(k, 1)]"
| "bump k ((k', n) # d) = (if k = k' then (k', Suc n) # d else (k', n) # bump k d)"

text \<open>
  The first loop of \<^verbatim>\<open>plan_flat\<close>. A Python set is kept as the list of the elements put
  into it; \<^verbatim>\<open>pdf_vins_of\<close> gives the VINs \<^verbatim>\<open>extract_vins_from_pdf\<close> finds for a file name.
\<close>

record flat_scan =
  file_fn_vins :: "(string \<times> string list) list"
  all_fn_vins :: "string list"
  all_vins_for_election :: "string list"

fun flat_scan_loop :: "bool \<Rightarrow> (string \<Rightarrow> string list) \<Rightarrow> dir_entry list \<Rightarrow> flat_scan \<Rightarrow> flat_scan" where
  "flat_scan_loop scan_pdf pdf_vins_of [] sc = sc"
| "flat_scan_loop scan_pdf pdf_vins_of (e # rest) sc =
     (if \<not> entry_is_file e then flat_scan_loop scan_pdf pdf_vins_of rest sc
      else
        flat_scan_loop scan_pdf pdf_vins_of rest
          \<lparr>file_fn_vins = dict_set (entry_name e) (extract_all_vins (entry_name e)) (file_fn_vins sc),
           all_fn_vins = all_fn_vins sc @ extract_all_vins (entry_name e),
           all_vins_for_election =
             all_vins_for_election sc
             @ (if scan_pdf \<and> py_lower (name_suffix (entry_name e)) = ''.pdf''
                then pdf_vins_of (entry_name e) else [])
             @ extract_all_vins (entry_name e)\<rparr>)"

text \<open>\<^verbatim>\<open>vin_counts\<close> and \<^verbatim>\<open>max(vin_counts, key=vin_counts.get)\<close>.\<close>

definition vin_counts_of ::
  "(string list \<Rightarrow> string list) \<Rightarrow> (string \<times> string list) list \<Rightarrow> (string \<times> nat) list" where
  "vin_counts_of set_iter d =
     foldl (\<lambda>counts entry. foldl (\<lambda>c v. bump v c) counts (set_iter (snd entry))) [] d"

definition count_keeper ::
  "(string list \<Rightarrow> string list) \<Rightarrow> (string \<times> string list) list \<Rightarrow> string option" where
  "count_keeper set_iter d =
     max_by (\<lambda>v. case map_of (vin_counts_of set_iter d) v of Some n \<Rightarrow> n | None \<Rightarrow> 0)
       (map fst (vin_counts_of set_iter d))"

text \<open>
  The keeper election of \<^verbatim>\<open>plan_flat\<close>, up to the choice of the keeper. What the
  function plans afterwards, its warnings and its PDF scan log are not part of it.
\<close>

datatype election = Keeper string | NoVin | Unreadable | NoKeeper

definition parent_rule ::
  "(string list \<Rightarrow> string list) \<Rightarrow> dir_entry list \<Rightarrow> string list \<Rightarrow> string list \<Rightarrow> string option" where
  "parent_rule set_iter items fn_vins elect =
     (case get_parent_vin set_iter (Some items) of
        None \<Rightarrow> None
      | Some p \<Rightarrow>
          if p \<noteq> [] \<and> p \<in> set (if fn_vins \<noteq> [] then fn_vins else elect) then Some p else None)"

definition flat_keeper ::
  "(string list \<Rightarrow> string list) \<Rightarrow> bool \<Rightarrow> (string \<Rightarrow> string list) \<Rightarrow> string
     \<Rightarrow> dir_entry list option \<Rightarrow> election" where
  "flat_keeper set_iter scan_pdf pdf_vins_of folder_name listing =
     (case listing of
        None \<Rightarrow> Unreadable
      | Some items \<Rightarrow>
          (let sc = flat_scan_loop scan_pdf pdf_vins_of items
                      \<lparr>file_fn_vins = [], all_fn_vins = [], all_vins_for_election = []\<rparr>;
               nothing = (all_fn_vins sc = [] \<and> all_vins_for_election sc = [])
           in if nothing \<and> extract_all_vins folder_name = [] then NoVin
              else
                (let elect = (if nothing then extract_all_vins folder_name
                              else all_vins_for_election sc)
                 in case parent_rule set_iter items (all_fn_vins sc) elect of
                      Some p \<Rightarrow> Keeper p
                    | None \<Rightarrow>
                        (case count_keeper set_iter (file_fn_vins sc) of
                           Some k \<Rightarrow> Keeper k
                         | None \<Rightarrow>
                             if elect \<noteq> []
                             then (case set_iter elect of [] \<Rightarrow> NoKeeper | x # xs \<Rightarrow> Keeper x)
                             else NoKeeper))))"

text \<open>
  The election in the words of C4: how many file names hold a VIN, and the VINs in the
  order in which the loop over the files first meets them.
\<close>

definition occurrences :: "(string \<times> string list) list \<Rightarrow> string \<Rightarrow> nat" where
  "occurrences d v = length (filter (\<lambda>entry. v \<in> set (snd entry)) d)"

definition met :: "(string list \<Rightarrow> string list) \<Rightarrow> (string \<times> string list) list \<Rightarrow> string list" where
  "met set_iter d = first_seen (concat (map (\<lambda>entry. set_iter (snd entry)) d))"

definition flat_items :: "dir_entry list" where
  "flat_items =
     [\<lparr>entry_name = ''Factura BBBBBBBBBBBBBBB22.pdf'', entry_is_file = True, entry_is_dir = False\<rparr>,
      \<lparr>entry_name = ''Oferta AAAAAAAAAAAAAAA11.pdf'', entry_is_file = True, entry_is_dir = False\<rparr>]"

definition no_pdf_vins :: "string \<Rightarrow> string list" where
  "no_pdf_vins n = []"

definition empty_scan :: flat_scan where
  "empty_scan = \<lparr>file_fn_vins = [], all_fn_vins = [], all_vins_for_election = []\<rparr>"

definition scan_inv :: "flat_scan \<Rightarrow> bool" where
  "scan_inv sc =
     ((\<forall>entry \<in> set (file_fn_vins sc). snd entry = extract_all_vins (fst entry))
      \<and> set (all_fn_vins sc) = (\<Union>entry \<in> set (file_fn_vins sc). set (snd entry)))"

subsection \<open>Content reclassification\<close>

text \<open>
  \<^verbatim>\<open>_CONTENT_CATEGORY_PATTERNS\<close>, in the order of the dict, and \<^verbatim>\<open>_CONTENT_PRIORITY\<close>. All the
  patterns but \<^verbatim>\<open>\bRCA\b\<close> and \<^verbatim>\<open>\bCIV\b\<close> are compiled with \<^verbatim>\<open>re.I\<close>. The class members with
  a code point above 255 (the letters t and a with a diacritic) match no character of the
  texts modelled here and are left out of the classes.
\<close>

definition t_cls :: cls where
  "t_cls = In ''tT''"

definition a_cls :: cls where
  "a_cls = In ''aA''"

definition I_cls :: cls where
  "I_cls = In [CHR ''I'', CHR ''i'', CHR 0xCE, CHR 0xEE]"

definition CONTENT_CATEGORY_PATTERNS :: "(string \<times> item list list) list" where
  "CONTENT_CATEGORY_PATTERNS =
     [(''Contract Cadru'',
        [ci ''Contract'' @ [Plus ws] @ ci ''Cadru'',
         ci ''Contract'' @ [Plus ws] @ ci ''de'' @ [Plus ws] @ ci ''Leasing'',
         ci ''Leasing'' @ [Plus ws] @ ci ''Opera'' @ [Ch t_cls] @ ci ''ional'']),
      (''Subcontract'',
        [ci ''Subcontract'',
         ci ''Act'' @ [Plus ws] @ ci ''Adi'' @ [Ch t_cls] @ ci ''ional'']),
      (''CASCO'',
        [[WordB] @ ci ''CASCO'' @ [WordB],
         ci ''FlexiCasco'',
         ci ''Poli'' @ [Ch t_cls, Ch a_cls, Plus ws] @ ci ''DT'' @ [WordB]]),
      (''RCA'',
        [[WordB] @ lit ''RCA'' @ [WordB],
         ci ''R'' @ [Ch a_cls] @ ci ''spundere'' @ [Plus ws] @ ci ''Civil'' @ [Ch a_cls]]),
      (''TALON / CIV'',
        [[WordB] @ ci ''TALON'' @ [WordB],
         ci ''Certificat'' @ [Plus ws] @ ci ''de'' @ [Plus ws, Ch I_cls] @ ci ''nmatricul'',
         [WordB] @ lit ''CIV'' @ [WordB]]),
      (''Facturi'',
        [ci ''FACTUR'' @ [Ch a_cls],
         ci ''Factur'' @ [Ch a_cls, Plus ws] @ ci ''fiscal'' @ [Ch a_cls],
         ci ''Factur'' @ [Ch a_cls, Plus ws] @ ci ''proform'' @ [Ch a_cls]])]"

definition CONTENT_PRIORITY :: "string list" where
  "CONTENT_PRIORITY = [''Facturi'', ''TALON / CIV'', ''Contract Cadru'', ''Subcontract'', ''CASCO'', ''RCA'']"

text \<open>\<^verbatim>\<open>_CONTENT_CATEGORY_PATTERNS[cat]\<close>; every name of the priority list is a key.\<close>

definition patterns_of :: "string \<Rightarrow> item list list" where
  "patterns_of cat = (case map_of CONTENT_CATEGORY_PATTERNS cat of Some ps \<Rightarrow> ps | None \<Rightarrow> [])"

text \<open>
  The two nested loops that end \<^verbatim>\<open>_scan_pdf_for_category\<close>: the first category of the
  priority list one of whose patterns is found in the text.
\<close>

definition matches_category :: "string \<Rightarrow> string \<Rightarrow> bool" where
  "matches_category text cat = list_ex (\<lambda>pat. re_search pat text \<noteq> None) (patterns_of cat)"

definition category_of_text :: "string \<Rightarrow> string option" where
  "category_of_text text =
     first_some (\<lambda>cat. if matches_category text cat then Some cat else None) CONTENT_PRIORITY"

text \<open>
  What \<^verbatim>\<open>_scan_pdf_for_category\<close> reads: the cache \<^verbatim>\<open>_reclass_cache\<close>, the result kept in the
  OCR cache for a path (present when the entry was made with OCR, holds \<^verbatim>\<open>reclass_cat\<close> and
  its size and time stamp are those of the file), whether PyMuPDF is there, and the texts of
  the pages of a PDF (\<^verbatim>\<open>None\<close>: opening or reading it raises).
\<close>

record scan_env =
  reclass_cache :: "string \<rightharpoonup> string option"
  ocr_cache_hit :: "string \<rightharpoonup> string option"
  HAS_PYMUPDF :: bool
  page_texts :: "string \<Rightarrow> bool \<Rightarrow> string list option"

text \<open>\<^verbatim>\<open>chr(12).join(...)\<close>.\<close>

fun join_pages :: "string list \<Rightarrow> string" where
  "join_pages [] = []"
| "join_pages [p] = p"
| "join_pages (p # q # ps) = p @ [CHR 0x0C] @ join_pages (q # ps)"

definition scan_pdf_for_category :: "scan_env \<Rightarrow> string \<Rightarrow> bool \<Rightarrow> string option" where
  "scan_pdf_for_category env pdf_path ocr =
     (case reclass_cache env pdf_path of
        Some v \<Rightarrow> v
      | None \<Rightarrow>
          (case (if ocr then ocr_cache_hit env pdf_path else None) of
             Some v \<Rightarrow> v
           | None \<Rightarrow>
               if \<not> HAS_PYMUPDF env then None
               else
                 (case page_texts env pdf_path ocr of
                    None \<Rightarrow> None
                  | Some pages \<Rightarrow> category_of_text (join_pages pages))))"

text \<open>
  The selection in the words of C1: the offset of the earliest occurrence of a category in
  the text, and the category with the lowest such offset, the lexically smaller name on
  equal offsets.
\<close>

definition earliest_offset :: "string \<Rightarrow> string \<Rightarrow> nat option" where
  "earliest_offset cat text =
     (case List.map_filter (\<lambda>pat. map_option fst (re_search pat text)) (patterns_of cat) of
        [] \<Rightarrow> None
      | n # ns \<Rightarrow> Some (fold min ns n))"

definition earlier :: "nat \<times> string \<Rightarrow> nat \<times> string \<Rightarrow> bool" where
  "earlier x y = (fst x < fst y \<or> (fst x = fst y \<and> snd x < snd y))"

definition first_position_category :: "string \<Rightarrow> string option" where
  "first_position_category text =
     (case List.map_filter (\<lambda>cat. map_option (\<lambda>n. (n, cat)) (earliest_offset cat text))
             (map fst CONTENT_CATEGORY_PATTERNS) of
        [] \<Rightarrow> None
      | c # cs \<Rightarrow> Some (snd (fold (\<lambda>x best. if earlier x best then x else best) cs c)))"

text \<open>
  A PDF of one page: a framework contract that lists three invoices further down.
\<close>

definition contract_text :: string where
  "contract_text =
     ''CONTRACT CADRU nr. 12345'' @ [newline] @ ''Clauze contractuale'' @ [newline]
     @ ''Factura atasata'' @ [newline] @ ''Factura nr 1'' @ [newline] @ ''Factura nr 2''"

definition contract_env :: scan_env where
  "contract_env =
     \<lparr>reclass_cache = Map.empty, ocr_cache_hit = Map.empty, HAS_PYMUPDF = True,
      page_texts = (\<lambda>p ocr. if p = ''/out/V/contract.pdf'' then Some [contract_text] else None)\<rparr>"

subsection \<open>Cross-copies by PDF content and the gap-fill sweep\<close>













































section \<open>Verification\<close>

subsection \<open>Facts about the ledger\<close>

lemma mk_change_sel [simp]:
  "action (mk_change act src dst rsn pf v) = act"
  "source (mk_change act src dst rsn pf v) = src"
  "destination (mk_change act src dst rsn pf v) = dst"
  "reason (mk_change act src dst rsn pf v) = rsn"
  "parent_folder (mk_change act src dst rsn pf v) = pf"
  "vin (mk_change act src dst rsn pf v) = v"
  "status (mk_change act src dst rsn pf v) = ''planned''"
  by (simp_all add: mk_change_def)

lemma copies_to_append:
  "copies_to dst (cs @ ds) = copies_to dst cs @ copies_to dst ds"
  by (simp add: copies_to_def)

lemma copies_to_single:
  "copies_to dst [mk_change act src d rsn pf v] =
     (if act = ''copy_file'' \<and> d = dst then [mk_change act src d rsn pf v] else [])"
  by (simp add: copies_to_def)

lemma last_source_snoc_copy:
  "last_source dst (cs @ [mk_change ''copy_file'' src dst rsn pf v]) = Some src"
  by (simp add: last_source_def copies_to_append copies_to_single)

lemma last_source_snoc_other:
  "\<not> (act = ''copy_file'' \<and> d = dst) \<Longrightarrow>
     last_source dst (cs @ [mk_change act src d rsn pf v]) = last_source dst cs"
  by (auto simp: last_source_def copies_to_append copies_to_single)

lemma last_source_Some_iff:
  "last_source dst cs = Some s \<longleftrightarrow>
     (copies_to dst cs \<noteq> [] \<and> source (last (copies_to dst cs)) = s)"
  by (auto simp: last_source_def)

lemma ledger_inv_init: "ledger_inv Ledger_init"
  by (simp add: ledger_inv_def Ledger_init_def last_source_def copies_to_def)

lemma ledger_inv_add:
  assumes "ledger_inv L"
  shows "ledger_inv (Ledger_add act src dst rsn pf v L)"
proof (cases "act = ''copy_file'' \<and> planned_dests L dst = Some src")
  case True
  then show ?thesis using assms by (simp add: Ledger_add_def)
next
  case False
  note nodrop = this
  show ?thesis
  proof (cases "act = ''copy_file''")
    case True
    with nodrop have ne: "planned_dests L dst \<noteq> Some src" by simp
    have ch: "changes (Ledger_add act src dst rsn pf v L)
                = changes L @ [mk_change ''copy_file'' src dst rsn pf v]"
      and pd: "planned_dests (Ledger_add act src dst rsn pf v L) = (planned_dests L)(dst \<mapsto> src)"
      using True ne by (simp_all add: Ledger_add_def Let_def)
    have "planned_dests (Ledger_add act src dst rsn pf v L) d
            = last_source d (changes (Ledger_add act src dst rsn pf v L))
          \<and> distinct_adj (map source (copies_to d (changes (Ledger_add act src dst rsn pf v L))))"
      for d
    proof (cases "d = dst")
      case True
      have old: "last_source dst (changes L) \<noteq> Some src"
        using assms ne by (simp add: ledger_inv_def)
      have da: "distinct_adj (map source (copies_to dst (changes L)))"
        using assms by (simp add: ledger_inv_def)
      have "distinct_adj (map source (copies_to dst (changes L)) @ [src])"
      proof (cases "copies_to dst (changes L) = []")
        case True
        then show ?thesis by simp
      next
        case False
        then have "last (map source (copies_to dst (changes L))) \<noteq> src"
          using old by (simp add: last_source_Some_iff last_map)
        with da False show ?thesis by (simp add: distinct_adj_append_iff)
      qed
      then show ?thesis
        using True by (simp add: ch pd last_source_snoc_copy copies_to_append copies_to_single)
    next
      case False
      then show ?thesis
        using assms
        by (simp add: ch pd last_source_snoc_other copies_to_append copies_to_single
            ledger_inv_def)
    qed
    then show ?thesis by (simp add: ledger_inv_def)
  next
    case False
    then have ch: "changes (Ledger_add act src dst rsn pf v L)
                = changes L @ [mk_change act src dst rsn pf v]"
      and pd: "planned_dests (Ledger_add act src dst rsn pf v L) = planned_dests L"
      by (simp_all add: Ledger_add_def Let_def)
    show ?thesis
      using assms False
      by (simp add: ledger_inv_def ch pd last_source_snoc_other copies_to_append
          copies_to_single)
  qed
qed

lemma ledger_inv_foldl:
  "ledger_inv L \<Longrightarrow> ledger_inv (foldl do_add L calls)"
proof (induction calls arbitrary: L)
  case Nil
  then show ?case by simp
next
  case (Cons a calls)
  obtain act src dst rsn pf v where a: "a = (act, src, dst, rsn, pf, v)"
    by (cases a) auto
  show ?case using Cons by (simp add: a ledger_inv_add)
qed

lemma ledger_inv_plan_adds: "ledger_inv (plan_adds calls)"
  by (simp add: plan_adds_def ledger_inv_foldl ledger_inv_init)

subsection \<open>Claims about the ledger\<close>

text \<open>
  C2, as stated, fails: two \<^verbatim>\<open>copy_file\<close> calls with one destination and two sources
  leave both entries in the ledger, so the later one is not dropped and the two entries
  share a destination without sharing a source.
\<close>

theorem C2_shared_destination_counterexample:
  "map (\<lambda>c. (source c, destination c))
     (changes (plan_adds
        [(''copy_file'', ''in/a/FL.pdf'', ''out/V/FL.pdf'', '''', '''', ''V''),
         (''copy_file'', ''in/b/FL.pdf'', ''out/V/FL.pdf'', '''', '''', ''V'')]))
     = [(''in/a/FL.pdf'', ''out/V/FL.pdf''), (''in/b/FL.pdf'', ''out/V/FL.pdf'')]
   \<and> \<not> no_shared_destination (plan_adds
        [(''copy_file'', ''in/a/FL.pdf'', ''out/V/FL.pdf'', '''', '''', ''V''),
         (''copy_file'', ''in/b/FL.pdf'', ''out/V/FL.pdf'', '''', '''', ''V'')])"
  by (simp add: plan_adds_def Ledger_add_def Ledger_init_def mk_change_def
      no_shared_destination_def)

text \<open>
  C2, amended: after any sequence of \<^verbatim>\<open>add\<close> calls the index maps every destination to
  the source of the latest copy entry planned for it, and successive copy entries for one
  destination never repeat a source. A \<^verbatim>\<open>copy_file\<close> whose destination was last planned
  from the same source leaves the ledger as it is; one whose destination was last planned
  from another source (or not at all) is appended.
\<close>

theorem C2_ledger_add_invariant:
  "ledger_inv (plan_adds calls)
   \<and> (last_source dst (changes (plan_adds calls)) = Some src \<longrightarrow>
        Ledger_add ''copy_file'' src dst rsn pf v (plan_adds calls) = plan_adds calls)
   \<and> (last_source dst (changes (plan_adds calls)) \<noteq> Some src \<longrightarrow>
        changes (Ledger_add ''copy_file'' src dst rsn pf v (plan_adds calls))
          = changes (plan_adds calls) @ [mk_change ''copy_file'' src dst rsn pf v])"
proof -
  have inv: "ledger_inv (plan_adds calls)" by (rule ledger_inv_plan_adds)
  then have idx: "planned_dests (plan_adds calls) dst = last_source dst (changes (plan_adds calls))"
    by (simp add: ledger_inv_def)
  show ?thesis using inv idx by (simp add: Ledger_add_def Let_def)
qed

theorem C2_ledger_add_invariant_witness:
  "ledger_inv (plan_adds [(''copy_file'', ''a'', ''d'', '''', '''', ''V'')])
   \<and> last_source ''d'' (changes (plan_adds [(''copy_file'', ''a'', ''d'', '''', '''', ''V'')])) = Some ''a''
   \<and> Ledger_add ''copy_file'' ''a'' ''d'' '''' '''' ''V''
        (plan_adds [(''copy_file'', ''a'', ''d'', '''', '''', ''V'')])
       = plan_adds [(''copy_file'', ''a'', ''d'', '''', '''', ''V'')]
   \<and> last_source ''d'' (changes (plan_adds [(''copy_file'', ''a'', ''d'', '''', '''', ''V'')])) \<noteq> Some ''b''
   \<and> changes (Ledger_add ''copy_file'' ''b'' ''d'' '''' '''' ''V''
        (plan_adds [(''copy_file'', ''a'', ''d'', '''', '''', ''V'')]))
       = changes (plan_adds [(''copy_file'', ''a'', ''d'', '''', '''', ''V'')])
           @ [mk_change ''copy_file'' ''b'' ''d'' '''' '''' ''V'']"
proof -
  have ls: "last_source ''d'' (changes (plan_adds [(''copy_file'', ''a'', ''d'', '''', '''', ''V'')]))
              = Some ''a''"
    by (simp add: plan_adds_def Ledger_add_def Ledger_init_def mk_change_def
        last_source_def copies_to_def)
  show ?thesis
    using C2_ledger_add_invariant
            [of "[(''copy_file'', ''a'', ''d'', '''', '''', ''V'')]" "''d''" "''a''" "''''" "''''" "''V''"]
          C2_ledger_add_invariant
            [of "[(''copy_file'', ''a'', ''d'', '''', '''', ''V'')]" "''d''" "''b''" "''''" "''''" "''V''"]
          ls
    by simp
qed

subsection \<open>Facts about the collision-safe destination\<close>

lemma first_candidate_none:
  "list_all (\<lambda>i. path_exists fs (candidate dst i) \<and> \<not> files_identical fs src (candidate dst i)) js
     \<Longrightarrow> first_candidate fs src dst js = None"
  by (induction js) auto

lemma first_candidate_first:
  "list_all (\<lambda>i. path_exists fs (candidate dst i) \<and> \<not> files_identical fs src (candidate dst i)) pre
   \<Longrightarrow> \<not> path_exists fs (candidate dst k) \<or> files_identical fs src (candidate dst k)
   \<Longrightarrow> first_candidate fs src dst (pre @ k # post)
         = Some (candidate dst k, if \<not> path_exists fs (candidate dst k) then ''renamed'' else ''skip'')"
  by (induction pre) auto

lemma range_split:
  "1 \<le> k \<Longrightarrow> k < n \<Longrightarrow> [1..<n] = [1..<k] @ k # [Suc k..<n]"
proof -
  assume a: "1 \<le> k" "k < n"
  then have "[1..<n] = [1..<k] @ [k..<n]"
    by (metis le_Suc_ex less_imp_le_nat upt_add_eq_append)
  moreover have "[k..<n] = k # [Suc k..<n]" using a by (simp add: upt_conv_Cons)
  ultimately show ?thesis by simp
qed


lemma digit_in_digits: "n < 10 \<Longrightarrow> digits ! n \<in> set digits"
proof -
  assume "n < 10"
  moreover have "length digits = 10" by (simp add: digits_def)
  ultimately show ?thesis by (simp add: nth_mem)
qed

lemma show_nat_digits: "set (show_nat n) \<subseteq> set digits"
proof (induction n rule: show_nat.induct)
  case (1 n)
  show ?case
  proof (cases "n < 10")
    case True
    then show ?thesis using digit_in_digits[of n] by (subst show_nat.simps) simp
  next
    case False
    have "digits ! (n mod 10) \<in> set digits" by (rule digit_in_digits) simp
    with False 1 show ?thesis by (subst show_nat.simps) simp
  qed
qed

lemma show_nat_no_sep: "CHR ''/'' \<notin> set (show_nat n)"
  using show_nat_digits[of n] by (auto simp: digits_def)

lemma show_nat_length: "0 < k \<Longrightarrow> n < 10 ^ k \<Longrightarrow> length (show_nat n) \<le> k"
proof (induction n arbitrary: k rule: show_nat.induct)
  case (1 n)
  show ?case
  proof (cases "n < 10")
    case True
    then show ?thesis using "1.prems" by (subst show_nat.simps) simp
  next
    case False
    with "1.prems" obtain j where k: "k = Suc j" by (cases k) auto
    have "0 < j" using False "1.prems" k by (cases j) auto
    moreover have "n div 10 < 10 ^ j" using "1.prems" k by (simp add: less_mult_imp_div_less mult.commute)
    ultimately have "length (show_nat (n div 10)) \<le> j" using "1.IH"[OF False] by blast
    then show ?thesis using False k by (subst show_nat.simps) simp
  qed
qed

lemma split_sep_plain: "CHR ''/'' \<notin> set s \<Longrightarrow> split_sep s = [s]"
  by (induction s) auto

lemma path_root_plain: "s \<noteq> [] \<Longrightarrow> hd s \<noteq> CHR ''/'' \<Longrightarrow> path_root s = []"
  by (cases s) (auto simp: path_root_def)

lemma Path_of_plain:
  "s \<noteq> [] \<Longrightarrow> s \<noteq> ''.'' \<Longrightarrow> CHR ''/'' \<notin> set s \<Longrightarrow> Path_of s = Path [] [s]"
  by (cases s) (auto simp: Path_of_def split_sep_plain path_root_def)

lemma doc_parts:
  "path_parent (Path_of ''out/doc.pdf'') = Path [] [''out'']"
  "base_stem (path_stem (Path_of ''out/doc.pdf'')) = ''doc''"
  "path_suffix (Path_of ''out/doc.pdf'') = ''.pdf''"
  by code_simp+

lemma doc_candidate:
  "candidate (Path_of ''out/doc.pdf'') i = Path [] [''out'', ''doc_'' @ show_nat i @ ''.pdf'']"
proof -
  have "Path_of (''doc_'' @ show_nat i @ ''.pdf'') = Path [] [''doc_'' @ show_nat i @ ''.pdf'']"
    by (rule Path_of_plain) (simp_all add: show_nat_no_sep)
  then show ?thesis by (simp add: candidate_def doc_parts joinpath_def)
qed

lemma doc_candidate_str:
  "str_of (candidate (Path_of ''out/doc.pdf'') i) = ''out/doc_'' @ show_nat i @ ''.pdf''"
  by (simp add: doc_candidate str_of_def)

lemma show_nat_10000: "show_nat 10000 = ''10000''"
  by (simp add: show_nat.simps digits_def)

lemma doc_candidate_crowded:
  assumes "i < 10000"
  shows "crowded_fs (str_of (candidate (Path_of ''out/doc.pdf'') i))
           = Some (Regular 4 ''e2fc714c4727ee9395f324cd2e7f331f'')"
proof -
  have "length (show_nat i) \<le> 4" using assms show_nat_length[of 4 i] by simp
  then have "show_nat i \<noteq> ''10000''" by auto
  then show ?thesis by (simp add: doc_candidate_str crowded_fs_def)
qed

lemma crowded_src: "str_of (Path_of ''in/doc.pdf'') = ''in/doc.pdf''" "str_of (Path_of ''out/doc.pdf'') = ''out/doc.pdf''"
  by code_simp+

lemma crowded_candidate_differs:
  assumes "i < 10000"
  shows "path_exists crowded_fs (candidate (Path_of ''out/doc.pdf'') i)
         \<and> \<not> files_identical crowded_fs (Path_of ''in/doc.pdf'') (candidate (Path_of ''out/doc.pdf'') i)"
proof -
  have c: "crowded_fs (str_of (candidate (Path_of ''out/doc.pdf'') i))
           = Some (Regular 4 ''e2fc714c4727ee9395f324cd2e7f331f'')"
    using assms by (rule doc_candidate_crowded)
  have s: "crowded_fs (str_of (Path_of ''in/doc.pdf'')) = Some (Regular 3 ''9a0364b9e99bb480dd25e1f0284c8555'')"
    by (simp add: crowded_src crowded_fs_def)
  show ?thesis by (simp add: path_exists_def files_identical_def st_size_def c s)
qed

lemma crowded_candidates:
  "list_all (\<lambda>i. path_exists crowded_fs (candidate (Path_of ''out/doc.pdf'') i)
               \<and> \<not> files_identical crowded_fs (Path_of ''in/doc.pdf'') (candidate (Path_of ''out/doc.pdf'') i))
     [1..<10000]"
  unfolding list_all_iff using crowded_candidate_differs by auto

lemma crowded_safe_dest:
  "safe_dest crowded_fs (Path_of ''in/doc.pdf'') (Path_of ''out/doc.pdf'') = (Path_of ''out/doc.pdf'', ''ok'')"
proof -
  have e: "path_exists crowded_fs (Path_of ''out/doc.pdf'')"
    by (simp add: path_exists_def crowded_src crowded_fs_def)
  have d: "\<not> files_identical crowded_fs (Path_of ''in/doc.pdf'') (Path_of ''out/doc.pdf'')"
    by (simp add: files_identical_def st_size_def crowded_src crowded_fs_def)
  have "first_candidate crowded_fs (Path_of ''in/doc.pdf'') (Path_of ''out/doc.pdf'') [1..<10000] = None"
    by (rule first_candidate_none[OF crowded_candidates])
  with e d show ?thesis by (simp add: safe_dest_def)
qed

lemma crowded_dst:
  "path_exists crowded_fs (Path_of ''in/doc.pdf'')"
  "path_exists crowded_fs (Path_of ''out/doc.pdf'')"
  "\<not> files_identical crowded_fs (Path_of ''in/doc.pdf'') (Path_of ''out/doc.pdf'')"
  by (simp_all add: path_exists_def files_identical_def st_size_def crowded_src crowded_fs_def)

lemma files_identical_regular:
  "fs (str_of a) = Some (Regular m d) \<Longrightarrow> fs (str_of b) = Some (Regular n e) \<Longrightarrow>
     files_identical fs a b = (m = n \<and> d = e)"
  by (auto simp: files_identical_def st_size_def file_hash_def)

subsection \<open>Facts about VIN extraction\<close>

lemma span_le: "span k s i \<le> length s - i"
  by (simp add: span_def) (metis length_drop length_takeWhile_le)

lemma span_mem: "j < span k s i \<Longrightarrow> mem k (s ! (i + j))"
proof -
  assume j: "j < span k s i"
  then have "takeWhile (mem k) (drop i s) ! j \<in> set (takeWhile (mem k) (drop i s))"
    by (simp add: span_def)
  then have "mem k (takeWhile (mem k) (drop i s) ! j)" by (rule set_takeWhileD[THEN conjunct2])
  moreover have "takeWhile (mem k) (drop i s) ! j = drop i s ! j"
    using j by (simp add: span_def takeWhile_nth)
  moreover have "i + j < length s" using j span_le[of k s i] by simp
  ultimately show ?thesis by simp
qed

lemma run_VIN_PATTERN:
  "run s VIN_PATTERN (i, a, b) =
     (if (0 < i \<and> i \<le> length s \<and> mem AZ09 (s ! (i - 1))) \<or> \<not> 17 \<le> span AZ09 s i
         \<or> (i + 17 < length s \<and> mem AZ09 (s ! (i + 17)))
      then None else Some (i + 17, i, i + 17))"
  by (simp only: VIN_PATTERN_def run.simps split: if_splits) auto

lemma vin_match_window:
  assumes "run s VIN_PATTERN (i, a, b) = Some (e, a', b')" "i \<le> length s"
  shows "e = i + 17" "length (group1 s (e, a', b')) = 17"
    "list_all (mem AZ09) (group1 s (e, a', b'))"
    "\<exists>pre post. s = pre @ group1 s (e, a', b') @ post
        \<and> (pre = [] \<or> \<not> mem AZ09 (last pre)) \<and> (post = [] \<or> \<not> mem AZ09 (hd post))"
proof -
  from assms(1) have m: "e = i + 17" "a' = i" "b' = i + 17"
    and lb: "\<not> (0 < i \<and> i \<le> length s \<and> mem AZ09 (s ! (i - 1)))"
    and sp: "17 \<le> span AZ09 s i"
    and la: "\<not> (i + 17 < length s \<and> mem AZ09 (s ! (i + 17)))"
    by (auto simp: run_VIN_PATTERN split: if_splits)
  show "e = i + 17" by (rule m)
  have len: "i + 17 \<le> length s" using sp span_le[of AZ09 s i] by simp
  have g: "group1 s (e, a', b') = take 17 (drop i s)" by (simp add: group1_def m)
  show "length (group1 s (e, a', b')) = 17" using len by (simp add: g)
  show "list_all (mem AZ09) (group1 s (e, a', b'))"
    unfolding g list_all_length
  proof (intro allI impI)
    fix j assume "j < length (take 17 (drop i s))"
    then have j: "j < 17" by simp
    then have "mem AZ09 (s ! (i + j))" using sp by (intro span_mem) simp
    then show "mem AZ09 (take 17 (drop i s) ! j)" using j len by simp
  qed
  have dec: "s = take i s @ take 17 (drop i s) @ drop (i + 17) s"
    by (metis append_take_drop_id drop_drop add.commute)
  have p: "take i s = [] \<or> \<not> mem AZ09 (last (take i s))"
  proof (cases "i = 0")
    case True then show ?thesis by simp
  next
    case False
    then have ne: "take i s \<noteq> []" using assms(2) by auto
    have "length (take i s) = i" using assms(2) by simp
    then have "last (take i s) = take i s ! (i - 1)"
      using last_conv_nth[OF ne] by simp
    also have "\<dots> = s ! (i - 1)" using False by simp
    finally have "last (take i s) = s ! (i - 1)" .
    then show ?thesis using lb False assms(2) by simp
  qed
  have q: "drop (i + 17) s = [] \<or> \<not> mem AZ09 (hd (drop (i + 17) s))"
  proof (cases "i + 17 < length s")
    case True
    then have "hd (drop (i + 17) s) = s ! (i + 17)" by (simp add: hd_drop_conv_nth)
    then show ?thesis using la True by simp
  next
    case False then show ?thesis by simp
  qed
  show "\<exists>pre post. s = pre @ group1 s (e, a', b') @ post
        \<and> (pre = [] \<or> \<not> mem AZ09 (last pre)) \<and> (post = [] \<or> \<not> mem AZ09 (hd post))"
    unfolding g using dec p q by blast
qed

lemma findall_from_VIN:
  "i \<le> length s \<Longrightarrow> v \<in> set (findall_from VIN_PATTERN s i) \<Longrightarrow>
     length v = 17 \<and> list_all (mem AZ09) v
     \<and> (\<exists>pre post. s = pre @ v @ post
          \<and> (pre = [] \<or> \<not> mem AZ09 (last pre)) \<and> (post = [] \<or> \<not> mem AZ09 (hd post)))"
proof (induction VIN_PATTERN s i rule: findall_from.induct)
  case (1 s i)
  show ?case
  proof (cases "run s VIN_PATTERN (i, 0, 0)")
    case None
    with "1.prems" have v: "v \<in> set (findall_from VIN_PATTERN s (Suc i))"
      by (subst (asm) findall_from.simps) simp
    show ?thesis
    proof (cases "Suc i \<le> length s")
      case True
      with "1.hyps"(1) None v "1.prems"(1) show ?thesis by simp
    next
      case False
      then have "findall_from VIN_PATTERN s (Suc i) = []"
        by (subst findall_from.simps) simp
      with v show ?thesis by simp
    qed
  next
    case (Some st)
    obtain e a b where st: "st = (e, a, b)" by (cases st) auto
    note w = vin_match_window[OF Some[unfolded st] "1.prems"(1)]
    from "1.prems" Some st
    have v: "v = group1 s (e, a, b) \<or> v \<in> set (findall_from VIN_PATTERN s e)"
      using w(1) by (subst (asm) findall_from.simps) simp
    show ?thesis
    proof (cases "v = group1 s (e, a, b)")
      case True
      then show ?thesis using w by simp
    next
      case False
      with v have v': "v \<in> set (findall_from VIN_PATTERN s e)" by simp
      show ?thesis
      proof (cases "e \<le> length s")
        case True
        have "\<not> length s < i" using "1.prems"(1) by simp
        moreover have "\<not> e \<le> i" using w(1) by simp
        ultimately show ?thesis
          using "1.hyps"(2)[OF _ Some[unfolded st] refl refl] True v' w(1) by simp
      next
        case False
        then have "findall_from VIN_PATTERN s e = []"
          by (subst findall_from.simps) simp
        with v' show ?thesis by simp
      qed
    qed
  qed
qed

lemma digits_not_alpha: "list_all (\<lambda>c. \<not> py_isalpha c) digits"
  by code_simp

lemma upper_not_digit: "list_all (\<lambda>c. \<not> py_isdigit c) upper"
  by code_simp

lemma AZ09_alpha: "mem AZ09 c \<Longrightarrow> py_isalpha c \<Longrightarrow> c \<in> set upper"
  using digits_not_alpha by (auto simp: AZ09_def list_all_iff)

lemma AZ09_digit: "mem AZ09 c \<Longrightarrow> py_isdigit c \<Longrightarrow> c \<in> set digits"
  using upper_not_digit by (auto simp: AZ09_def list_all_iff)

lemma extract_all_vins_window:
  assumes "v \<in> set (extract_all_vins fn)"
  shows "vin_window (\<lambda>c. c \<in> set upper \<or> c \<in> set digits) fn v"
proof -
  from assms have f: "v \<in> set (findall_from VIN_PATTERN fn 0)" and ok: "is_valid_vin v"
    by (simp_all add: extract_all_vins_def findall_def)
  from findall_from_VIN[OF _ f]
  have len: "length v = 17" and cls: "list_all (mem AZ09) v"
    and win: "\<exists>pre post. fn = pre @ v @ post
          \<and> (pre = [] \<or> \<not> mem AZ09 (last pre)) \<and> (post = [] \<or> \<not> mem AZ09 (hd post))"
    by simp_all
  from ok len obtain x y where x: "x \<in> set v" "py_isalpha x" and y: "y \<in> set v" "py_isdigit y"
    by (auto simp: is_valid_vin_def list_ex_iff)
  from cls x y have "x \<in> set upper" "y \<in> set digits"
    by (auto simp: list_all_iff intro: AZ09_alpha AZ09_digit)
  with x y have ex: "list_ex (\<lambda>c. c \<in> set upper) v" "list_ex (\<lambda>c. c \<in> set digits) v"
    by (auto simp: list_ex_iff)
  have m: "mem AZ09 c = (c \<in> set upper \<or> c \<in> set digits)" for c
    by (simp add: AZ09_def)
  have cls': "list_all (\<lambda>c. c \<in> set upper \<or> c \<in> set digits) v"
    using cls by (simp add: list_all_iff m)
  show ?thesis
    using len cls' ex win by (simp add: vin_window_def m)
qed

text \<open>
  C3, as stated, fails: in \<^verbatim>\<open>aWVWZZZ3CZWE000001\<close> the 17 characters after the lower-case
  letter are returned as a VIN, and the character before the window is alphanumeric.
\<close>

theorem C3_lowercase_neighbour_counterexample:
  "extract_all_vins ''aWVWZZZ3CZWE000001'' = [''WVWZZZ3CZWE000001'']
   \<and> py_isalnum CHR ''a''
   \<and> \<not> vin_window py_isalnum ''aWVWZZZ3CZWE000001'' ''WVWZZZ3CZWE000001''"
proof -
  have r: "extract_all_vins ''aWVWZZZ3CZWE000001'' = [''WVWZZZ3CZWE000001'']"
    by code_simp
  have a: "py_isalnum CHR ''a''" by code_simp
  have "\<not> (pre = [] \<or> \<not> py_isalnum (last pre))"
    if "''aWVWZZZ3CZWE000001'' = pre @ ''WVWZZZ3CZWE000001'' @ post" for pre post
  proof -
    from that have "length ''aWVWZZZ3CZWE000001'' = length (pre @ ''WVWZZZ3CZWE000001'' @ post)"
      by simp
    then have "length pre + length post = 1" by simp
    then have "pre = [] \<and> length post = 1 \<or> length pre = 1 \<and> post = []"
      by (cases pre; cases post) auto
    then show ?thesis
    proof
      assume "pre = [] \<and> length post = 1"
      with that show ?thesis by simp
    next
      assume "length pre = 1 \<and> post = []"
      then obtain c where "pre = [c]" by (cases pre) auto
      with that have "pre = ''a''" by simp
      then show ?thesis using a by simp
    qed
  qed
  then have "\<not> vin_window py_isalnum ''aWVWZZZ3CZWE000001'' ''WVWZZZ3CZWE000001''"
    by (auto simp: vin_window_def)
  with r a show ?thesis by simp
qed

text \<open>
  C3, amended: every VIN returned by \<^verbatim>\<open>extract_all_vins\<close> is a window of 17 characters
  of the input, all in \<^verbatim>\<open>[A-Z0-9]\<close>, with at least one letter and at least one digit, and
  the characters right before and right after the window, when they exist, are not in
  \<^verbatim>\<open>[A-Z0-9]\<close> (a lower-case letter may stand there).
\<close>

theorem C3_extract_all_vins:
  "\<forall>v \<in> set (extract_all_vins fn). vin_window (\<lambda>c. c \<in> set upper \<or> c \<in> set digits) fn v"
  using extract_all_vins_window by blast

theorem C3_extract_all_vins_witness:
  "''UU1DJF01873953007'' \<in> set (extract_all_vins ''FL - DACIA DUSTER, Alb - UU1DJF01873953007.pdf'')
   \<and> vin_window (\<lambda>c. c \<in> set upper \<or> c \<in> set digits)
        ''FL - DACIA DUSTER, Alb - UU1DJF01873953007.pdf'' ''UU1DJF01873953007''"
proof -
  have "extract_all_vins ''FL - DACIA DUSTER, Alb - UU1DJF01873953007.pdf'' = [''UU1DJF01873953007'']"
    by code_simp
  then have m: "''UU1DJF01873953007'' \<in> set (extract_all_vins ''FL - DACIA DUSTER, Alb - UU1DJF01873953007.pdf'')"
    by simp
  show ?thesis
    using C3_extract_all_vins[of "''FL - DACIA DUSTER, Alb - UU1DJF01873953007.pdf''"] m by blast
qed

subsection \<open>Facts about the groups of one rename\<close>

lemma first_seen_snoc:
  "first_seen (xs @ [x]) = (if x \<in> set xs then first_seen xs else first_seen xs @ [x])"
  by (simp add: first_seen_def)

lemma first_seen_set [simp]: "set (first_seen xs) = set xs"
  by (simp add: first_seen_def)

lemma first_seen_distinct [simp]: "distinct (first_seen xs)"
  by (simp add: first_seen_def)

lemma group_append_map:
  "distinct ks \<Longrightarrow>
     group_append k v (map (\<lambda>h. (h, f h)) ks) =
       (if k \<in> set ks then map (\<lambda>h. (h, if h = k then f h @ [v] else f h)) ks
        else map (\<lambda>h. (h, f h)) ks @ [(k, [v])])"
  by (induction ks) auto

lemma by_hash_of_classes:
  "by_hash_of fs cs indices =
     map (\<lambda>h. (h, hash_class fs cs indices h)) (hash_classes fs cs indices)"
proof (induction indices rule: rev_induct)
  case Nil
  then show ?case by (simp add: by_hash_of_def hash_classes_def first_seen_def)
next
  case (snoc x xs)
  let ?H = "source_hash fs cs"
  have step: "by_hash_of fs cs (xs @ [x]) = group_append (?H x) x (by_hash_of fs cs xs)"
    by (simp add: by_hash_of_def source_hash_def)
  show ?case
  proof (cases "?H x \<in> set (map ?H xs)")
    case True
    then show ?thesis
      unfolding step snoc.IH
      by (subst group_append_map) (auto simp: hash_classes_def hash_class_def first_seen_snoc)
  next
    case False
    then have "\<forall>i \<in> set xs. ?H i \<noteq> ?H x"
      by (metis image_eqI list.set_map)
    then have "filter (\<lambda>i. ?H i = ?H x) xs = []"
      by (simp add: filter_empty_conv)
    with False show ?thesis
      unfolding step snoc.IH
      by (subst group_append_map) (auto simp: hash_classes_def hash_class_def first_seen_snoc)
  qed
qed

subsection \<open>Facts about the rename and dedup pass\<close>

lemma split_sep_ne [simp]: "split_sep s \<noteq> []"
  by (induction s) (auto split: list.splits)

lemma split_sep_append_plain:
  "CHR ''/'' \<notin> set n \<Longrightarrow>
     split_sep (s @ n) = butlast (split_sep s) @ [last (split_sep s) @ n]"
proof (induction s)
  case Nil
  then show ?case by (simp add: split_sep_plain)
next
  case (Cons c s)
  obtain x xs where X: "split_sep s = x # xs" by (cases "split_sep s") auto
  show ?case
  proof (cases "c = CHR ''/''")
    case True
    then show ?thesis using Cons by simp
  next
    case False
    then show ?thesis using Cons X by (cases xs) auto
  qed
qed

lemma split_sep_slash: "split_sep (s @ ''/'') = split_sep s @ [[]]"
proof (induction s)
  case Nil
  then show ?case by simp
next
  case (Cons c s)
  obtain x xs where X: "split_sep s = x # xs" by (cases "split_sep s") auto
  then show ?case using Cons by auto
qed

lemma last_split_sep_slash: "last (split_sep (s @ ''/'')) = []"
  by (simp add: split_sep_slash)

lemma join_sep_snoc: "join_sep (ps @ [n]) = (if ps = [] then n else join_sep ps @ ''/'' @ n)"
  by (induction ps rule: join_sep.induct) auto

lemma last_split_sep_name:
  assumes "CHR ''/'' \<notin> set n" "a = [] \<or> a = ''/'' \<or> a = ''//''"
  shows "last (split_sep (a @ join_sep (ps @ [n]))) = n"
proof (cases "ps = []")
  case True
  have "last (split_sep a) = []" using assms(2) by auto
  then show ?thesis using True assms(1) by (simp add: split_sep_append_plain)
next
  case False
  have "a @ join_sep (ps @ [n]) = ((a @ join_sep ps) @ ''/'') @ n"
    using False by (simp add: join_sep_snoc)
  moreover have "split_sep (((a @ join_sep ps) @ ''/'') @ n)
      = butlast (split_sep ((a @ join_sep ps) @ ''/''))
        @ [last (split_sep ((a @ join_sep ps) @ ''/'')) @ n]"
    by (rule split_sep_append_plain[OF assms(1)])
  ultimately show ?thesis
    using last_split_sep_slash[of "a @ join_sep ps"] by simp
qed

lemma path_root_cases: "path_root d = [] \<or> path_root d = ''/'' \<or> path_root d = ''//''"
  by (simp add: path_root_def)

lemma joinpath_plain:
  "plain_name n \<Longrightarrow> joinpath q n = Path (anchor q) (parts q @ [n])"
  by (simp add: joinpath_def plain_name_def Path_of_plain)

lemma last_filter_keep:
  "xs \<noteq> [] \<Longrightarrow> P (last xs) \<Longrightarrow> filter P xs \<noteq> [] \<and> last (filter P xs) = last xs"
  by (induction xs rule: rev_induct) auto

lemma path_name_of_last:
  assumes "last (split_sep S) = n" "plain_name n"
  shows "path_name (Path_of S) = n"
proof -
  have "n \<noteq> [] \<and> n \<noteq> ''.''" using assms(2) by (simp add: plain_name_def)
  then have "filter (\<lambda>x. x \<noteq> [] \<and> x \<noteq> ''.'') (split_sep S) \<noteq> []
           \<and> last (filter (\<lambda>x. x \<noteq> [] \<and> x \<noteq> ''.'') (split_sep S)) = last (split_sep S)"
    using assms(1) by (intro last_filter_keep) simp_all
  then show ?thesis using assms(1) by (simp add: path_name_def Path_of_def)
qed

lemma name_roundtrip:
  assumes "plain_name n"
  shows "path_name (Path_of (str_of (joinpath (path_parent (Path_of d)) n))) = n"
proof -
  define a where "a = path_root d"
  define ps where "ps = butlast (parts (Path_of d))"
  have pp: "path_parent (Path_of d) = Path a ps"
    by (simp add: path_parent_def Path_of_def a_def ps_def)
  have j: "joinpath (Path a ps) n = Path a (ps @ [n])"
    using assms by (simp add: joinpath_plain)
  have s: "str_of (Path a (ps @ [n])) = a @ join_sep (ps @ [n])" by (simp add: str_of_def)
  have ns: "CHR ''/'' \<notin> set n" using assms by (simp add: plain_name_def)
  have ac: "a = [] \<or> a = ''/'' \<or> a = ''//''" unfolding a_def by (rule path_root_cases)
  have l: "last (split_sep (a @ join_sep (ps @ [n]))) = n"
    by (rule last_split_sep_name[OF ns ac])
  show ?thesis unfolding pp j s by (rule path_name_of_last[OF l assms])
qed

lemma plain_pdf: "CHR ''/'' \<notin> set B \<Longrightarrow> plain_name (B @ ''.pdf'')"
  by (cases B) (auto simp: plain_name_def)

lemma plain_numbered: "CHR ''/'' \<notin> set B \<Longrightarrow> plain_name (B @ ''_'' @ show_nat k @ ''.pdf'')"
  using show_nat_no_sep[of k] by (cases B) (auto simp: plain_name_def)

lemma rename_entry_moved: "rename_entry name k cs = cs[k := moved (cs ! k) name]"
  by (simp add: rename_entry_def moved_def)

lemma dedup_groups_effect:
  assumes "\<forall>g \<in> set gs. snd g \<noteq> []"
    and "distinct (map (\<lambda>g. hd (snd g)) gs)"
    and "\<forall>g \<in> set gs. hd (snd g) < length cs"
  shows "\<exists>cs' st' on'.
      dedup_groups B gs counter (cs, rm, st, on)
        = Some (cs', rm \<union> (\<Union>g \<in> set gs. set (tl (snd g))), st', on')
      \<and> length cs' = length cs
      \<and> (\<forall>k < length gs. cs' ! hd (snd (gs ! k))
            = moved (cs ! hd (snd (gs ! k))) (B @ ''_'' @ show_nat (Suc (counter + k)) @ ''.pdf''))
      \<and> (\<forall>j. j \<notin> set (map (\<lambda>g. hd (snd g)) gs) \<longrightarrow> cs' ! j = cs ! j)
      \<and> deduped st' = deduped st + sum_list (map (\<lambda>g. length (tl (snd g))) gs)"
  using assms
proof (induction gs arbitrary: counter cs rm st on)
  case Nil
  then show ?case by simp
next
  case (Cons g gs)
  obtain h grp where g: "g = (h, grp)" by (cases g) auto
  from Cons.prems(1) g obtain keeper others where grp: "grp = keeper # others"
    by (cases grp) auto
  let ?n1 = "B @ ''_'' @ show_nat (Suc counter) @ ''.pdf''"
  let ?cs1 = "rename_entry ?n1 keeper cs"
  let ?st1 = "st\<lparr>deduped := deduped st + length others, renamed := Suc (renamed st)\<rparr>"
  let ?on1 = "note_original ?n1 keeper cs on"
  have len1: "length ?cs1 = length cs" by (simp add: rename_entry_moved)
  have kl: "keeper < length cs" using Cons.prems(3) g grp by simp
  have knot: "keeper \<notin> set (map (\<lambda>g. hd (snd g)) gs)"
    using Cons.prems(2) g grp by simp
  have p1: "\<forall>g \<in> set gs. snd g \<noteq> []" using Cons.prems(1) by simp
  have p2: "distinct (map (\<lambda>g. hd (snd g)) gs)" using Cons.prems(2) by simp
  have p3: "\<forall>g \<in> set gs. hd (snd g) < length ?cs1" using Cons.prems(3) len1 by simp
  from Cons.IH[OF p1 p2 p3, of "Suc counter" "rm \<union> set others" ?st1 ?on1]
  obtain cs' st' on' where
    r: "dedup_groups B gs (Suc counter) (?cs1, rm \<union> set others, ?st1, ?on1)
          = Some (cs', (rm \<union> set others) \<union> (\<Union>g \<in> set gs. set (tl (snd g))), st', on')"
    and l: "length cs' = length ?cs1"
    and kp: "\<forall>k < length gs. cs' ! hd (snd (gs ! k))
            = moved (?cs1 ! hd (snd (gs ! k))) (B @ ''_'' @ show_nat (Suc (Suc counter + k)) @ ''.pdf'')"
    and ot: "\<forall>j. j \<notin> set (map (\<lambda>g. hd (snd g)) gs) \<longrightarrow> cs' ! j = ?cs1 ! j"
    and dd: "deduped st' = deduped ?st1 + sum_list (map (\<lambda>g. length (tl (snd g))) gs)"
    by blast
  have run: "dedup_groups B (g # gs) counter (cs, rm, st, on)
          = Some (cs', rm \<union> (\<Union>g \<in> set (g # gs). set (tl (snd g))), st', on')"
    using r by (simp add: g grp Un_assoc)
  have k_all: "\<forall>k < length (g # gs). cs' ! hd (snd ((g # gs) ! k))
            = moved (cs ! hd (snd ((g # gs) ! k))) (B @ ''_'' @ show_nat (Suc (counter + k)) @ ''.pdf'')"
  proof (intro allI impI)
    fix k assume k: "k < length (g # gs)"
    show "cs' ! hd (snd ((g # gs) ! k))
            = moved (cs ! hd (snd ((g # gs) ! k))) (B @ ''_'' @ show_nat (Suc (counter + k)) @ ''.pdf'')"
    proof (cases k)
      case 0
      have "cs' ! keeper = ?cs1 ! keeper" using ot knot by blast
      also have "\<dots> = moved (cs ! keeper) ?n1" using kl by (simp add: rename_entry_moved)
      finally show ?thesis using 0 by (simp add: g grp)
    next
      case (Suc k')
      then have k': "k' < length gs" using k by simp
      let ?kp = "hd (snd (gs ! k'))"
      have "?kp \<in> set (map (\<lambda>g. hd (snd g)) gs)" using k' by (force simp: in_set_conv_nth)
      with knot have "?kp \<noteq> keeper" by blast
      then have "?cs1 ! ?kp = cs ! ?kp" by (simp add: rename_entry_moved)
      with kp k' show ?thesis by (simp add: Suc)
    qed
  qed
  have o_all: "\<forall>j. j \<notin> set (map (\<lambda>g. hd (snd g)) (g # gs)) \<longrightarrow> cs' ! j = cs ! j"
  proof (intro allI impI)
    fix j assume j: "j \<notin> set (map (\<lambda>g. hd (snd g)) (g # gs))"
    then have "j \<noteq> keeper" "j \<notin> set (map (\<lambda>g. hd (snd g)) gs)" by (simp_all add: g grp)
    then show "cs' ! j = cs ! j" using ot by (simp add: rename_entry_moved)
  qed
  have d_all: "deduped st' = deduped st + sum_list (map (\<lambda>g. length (tl (snd g))) (g # gs))"
    using dd by (simp add: g grp)
  have l': "length cs' = length cs" using l len1 by simp
  show ?case
    by (rule exI[of _ cs'], rule exI[of _ st'], rule exI[of _ on'])
       (intro conjI run l' k_all o_all d_all)
qed

lemma class_ne:
  "h \<in> set (hash_classes fs cs indices) \<Longrightarrow> hash_class fs cs indices h \<noteq> []"
  by (auto simp: hash_classes_def hash_class_def filter_empty_conv)

lemma class_hd:
  assumes "h \<in> set (hash_classes fs cs indices)"
  shows "hd (hash_class fs cs indices h) \<in> set indices"
    and "source_hash fs cs (hd (hash_class fs cs indices h)) = h"
proof -
  have "hd (hash_class fs cs indices h) \<in> set (hash_class fs cs indices h)"
    using class_ne[OF assms] by simp
  then show "hd (hash_class fs cs indices h) \<in> set indices"
    and "source_hash fs cs (hd (hash_class fs cs indices h)) = h"
    by (simp_all add: hash_class_def)
qed

lemma keepers_hash:
  "map (source_hash fs cs) (class_keepers fs cs indices) = hash_classes fs cs indices"
  by (simp add: class_keepers_def class_hd(2) map_idI)

lemma keepers_distinct: "distinct (class_keepers fs cs indices)"
proof -
  have "distinct (map (source_hash fs cs) (class_keepers fs cs indices))"
    by (simp add: keepers_hash hash_classes_def)
  then show ?thesis by (simp add: distinct_map)
qed

lemma keepers_in: "set (class_keepers fs cs indices) \<subseteq> set indices"
  by (auto simp: class_keepers_def class_hd(1))

lemma removed_set:
  assumes "distinct indices"
  shows "(\<Union>h \<in> set (hash_classes fs cs indices). set (tl (hash_class fs cs indices h)))
           = set indices - set (class_keepers fs cs indices)"
proof (intro set_eqI iffI)
  fix x
  assume "x \<in> (\<Union>h \<in> set (hash_classes fs cs indices). set (tl (hash_class fs cs indices h)))"
  then obtain h where h: "h \<in> set (hash_classes fs cs indices)"
    and x: "x \<in> set (tl (hash_class fs cs indices h))" by blast
  have ne: "hash_class fs cs indices h \<noteq> []" by (rule class_ne[OF h])
  from x ne have xm: "x \<in> set (hash_class fs cs indices h)" by (meson list.set_sel(2))
  then have xi: "x \<in> set indices" and xh: "source_hash fs cs x = h"
    by (simp_all add: hash_class_def)
  have "distinct (hash_class fs cs indices h)" using assms by (simp add: hash_class_def)
  then have nhd: "x \<noteq> hd (hash_class fs cs indices h)"
    using x ne by (cases "hash_class fs cs indices h") auto
  have "x \<notin> set (class_keepers fs cs indices)"
  proof
    assume "x \<in> set (class_keepers fs cs indices)"
    then obtain h' where h': "h' \<in> set (hash_classes fs cs indices)"
      and xe: "x = hd (hash_class fs cs indices h')" by (auto simp: class_keepers_def)
    then have "source_hash fs cs x = h'" using class_hd(2) by simp
    with xh xe nhd show False by simp
  qed
  with xi show "x \<in> set indices - set (class_keepers fs cs indices)" by simp
next
  fix x
  assume "x \<in> set indices - set (class_keepers fs cs indices)"
  then have xi: "x \<in> set indices" and xk: "x \<notin> set (class_keepers fs cs indices)" by simp_all
  let ?h = "source_hash fs cs x"
  have h: "?h \<in> set (hash_classes fs cs indices)" using xi by (simp add: hash_classes_def)
  have xm: "x \<in> set (hash_class fs cs indices ?h)" using xi by (simp add: hash_class_def)
  have "x \<noteq> hd (hash_class fs cs indices ?h)" using xk h by (auto simp: class_keepers_def)
  with xm have "x \<in> set (tl (hash_class fs cs indices ?h))"
    by (cases "hash_class fs cs indices ?h") auto
  with h show "x \<in> (\<Union>h \<in> set (hash_classes fs cs indices). set (tl (hash_class fs cs indices h)))"
    by blast
qed

lemma single_class:
  assumes "hash_classes fs cs indices = [h]"
  shows "hash_class fs cs indices h = indices"
proof -
  have "set (map (source_hash fs cs) indices) = {h}"
    using assms by (metis first_seen_set hash_classes_def list.set(1) list.simps(15))
  then have "\<forall>i \<in> set indices. source_hash fs cs i = h" by auto
  then show ?thesis by (simp add: hash_class_def)
qed

lemma renamed_to_moved:
  "plain_name name \<Longrightarrow> cs' ! i = moved (cs ! i) name \<Longrightarrow> renamed_to cs cs' i name"
  by (simp add: renamed_to_def moved_def name_roundtrip)

lemma rename_dedup_single:
  assumes "indices \<noteq> []" "list_all (\<lambda>i. i < length cs) indices" "CHR ''/'' \<notin> set B"
    and one: "length (hash_classes fs cs indices) = 1"
  shows "\<exists>cs' st' on'. rename_dedup_group fs cs indices B st on = Some (cs', set (tl indices), st', on')
      \<and> length cs' = length cs
      \<and> renamed_to cs cs' (hd indices) (B @ ''.pdf'')
      \<and> (\<forall>j. j \<noteq> hd indices \<longrightarrow> cs' ! j = cs ! j)
      \<and> deduped st' = deduped st + (length indices - 1)"
proof -
  from one obtain h where h: "hash_classes fs cs indices = [h]"
    by (cases "hash_classes fs cs indices") auto
  have cl: "hash_class fs cs indices h = indices" by (rule single_class[OF h])
  obtain keeper others where io: "indices = keeper # others" using assms(1) by (cases indices) auto
  have "by_hash_of fs cs indices = [(h, hash_class fs cs indices h)]"
    by (simp add: by_hash_of_classes h)
  then have bh: "by_hash_of fs cs indices = [(h, keeper # others)]"
    unfolding cl by (simp add: io)
  let ?cs' = "rename_entry (B @ ''.pdf'') keeper cs"
  have kl: "keeper < length cs" using assms(2) io by simp
  have r: "rename_dedup_group fs cs indices B st on
      = Some (?cs', set others,
              st\<lparr>deduped := deduped st + length others, renamed := Suc (renamed st)\<rparr>,
              note_original (B @ ''.pdf'') keeper cs on)"
    using assms(1,2) by (simp add: rename_dedup_group_def bh)
  have m: "?cs' ! keeper = moved (cs ! keeper) (B @ ''.pdf'')"
    using kl by (simp add: rename_entry_moved)
  have rt: "renamed_to cs ?cs' keeper (B @ ''.pdf'')"
    by (rule renamed_to_moved[OF plain_pdf[OF assms(3)] m])
  show ?thesis
    using r rt by (simp add: io rename_entry_moved)
qed

lemma rename_dedup_multi:
  assumes "indices \<noteq> []" "distinct indices" "list_all (\<lambda>i. i < length cs) indices"
    "CHR ''/'' \<notin> set B"
    and many: "2 \<le> length (hash_classes fs cs indices)"
  shows "\<exists>cs' st' on'. rename_dedup_group fs cs indices B st on
        = Some (cs', set indices - set (class_keepers fs cs indices), st', on')
      \<and> length cs' = length cs
      \<and> (\<forall>k < length (hash_classes fs cs indices).
            renamed_to cs cs' (class_keepers fs cs indices ! k) (B @ ''_'' @ show_nat (Suc k) @ ''.pdf''))
      \<and> (\<forall>j. j \<notin> set (class_keepers fs cs indices) \<longrightarrow> cs' ! j = cs ! j)"
proof -
  let ?cl = "hash_classes fs cs indices"
  let ?gs = "map (\<lambda>h. (h, hash_class fs cs indices h)) ?cl"
  have bh: "by_hash_of fs cs indices = ?gs" by (rule by_hash_of_classes)
  from many obtain h1 h2 hs where cl: "?cl = h1 # h2 # hs"
    by (cases ?cl; cases "tl ?cl") auto
  have r: "rename_dedup_group fs cs indices B st on = dedup_groups B ?gs 0 (cs, {}, st, on)"
    using assms(1,3) by (simp add: rename_dedup_group_def bh cl)
  have kp: "map (\<lambda>g. hd (snd g)) ?gs = class_keepers fs cs indices"
    by (simp add: class_keepers_def comp_def)
  have p1: "\<forall>g \<in> set ?gs. snd g \<noteq> []" by (auto simp: class_ne)
  have p2: "distinct (map (\<lambda>g. hd (snd g)) ?gs)" unfolding kp by (rule keepers_distinct)
  have p3: "\<forall>g \<in> set ?gs. hd (snd g) < length cs"
    using assms(3) class_hd(1)[of _ fs cs indices] by (auto simp: list_all_iff)
  from dedup_groups_effect[OF p1 p2 p3, of B 0 "{}" st on]
  obtain cs' st' on' where
    d: "dedup_groups B ?gs 0 (cs, {}, st, on)
          = Some (cs', {} \<union> (\<Union>g \<in> set ?gs. set (tl (snd g))), st', on')"
    and l: "length cs' = length cs"
    and k: "\<forall>k < length ?gs. cs' ! hd (snd (?gs ! k))
            = moved (cs ! hd (snd (?gs ! k))) (B @ ''_'' @ show_nat (Suc (0 + k)) @ ''.pdf'')"
    and o: "\<forall>j. j \<notin> set (map (\<lambda>g. hd (snd g)) ?gs) \<longrightarrow> cs' ! j = cs ! j"
    by blast
  have rm: "{} \<union> (\<Union>g \<in> set ?gs. set (tl (snd g)))
              = set indices - set (class_keepers fs cs indices)"
    using removed_set[OF assms(2), of fs cs] by simp
  have k': "\<forall>k < length ?cl.
            renamed_to cs cs' (class_keepers fs cs indices ! k) (B @ ''_'' @ show_nat (Suc k) @ ''.pdf'')"
  proof (intro allI impI)
    fix j assume j: "j < length ?cl"
    then have e: "hd (snd (?gs ! j)) = class_keepers fs cs indices ! j"
      by (simp add: class_keepers_def)
    from k j have "cs' ! hd (snd (?gs ! j))
            = moved (cs ! hd (snd (?gs ! j))) (B @ ''_'' @ show_nat (Suc j) @ ''.pdf'')"
      by simp
    then show "renamed_to cs cs' (class_keepers fs cs indices ! j) (B @ ''_'' @ show_nat (Suc j) @ ''.pdf'')"
      unfolding e by (intro renamed_to_moved plain_numbered assms(4))
  qed
  have o': "\<forall>j. j \<notin> set (class_keepers fs cs indices) \<longrightarrow> cs' ! j = cs ! j"
    using o unfolding kp .
  have r': "rename_dedup_group fs cs indices B st on
        = Some (cs', set indices - set (class_keepers fs cs indices), st', on')"
    using r d rm by simp
  show ?thesis
    by (rule exI[of _ cs'], rule exI[of _ st'], rule exI[of _ on'])
       (intro conjI r' l k' o')
qed

text \<open>
  C7: for a group (non-empty, of distinct valid indices) with a base name \<^verbatim>\<open>B\<close> free of
  slashes: when all sources have one hash, the first entry is renamed to \<^verbatim>\<open>B.pdf\<close>, every
  other index of the group is returned for removal and counted as deduped, and no other
  entry changes; when there are \<^verbatim>\<open>n\<close> hashes, at least two, the first entry of each hash
  class is kept and renamed to \<^verbatim>\<open>B_1.pdf\<close>, ..., \<^verbatim>\<open>B_n.pdf\<close> in the order in which the
  hashes are first met, every other index of the group is returned for removal, and no
  other entry changes.
\<close>

theorem C7_rename_dedup_group:
  "indices \<noteq> [] \<and> distinct indices \<and> list_all (\<lambda>i. i < length cs) indices \<and> CHR ''/'' \<notin> set B
   \<longrightarrow>
     (\<exists>cs' rm st' on'.
        rename_dedup_group fs cs indices B st on = Some (cs', rm, st', on')
        \<and> length cs' = length cs
        \<and> (length (hash_classes fs cs indices) = 1 \<longrightarrow>
              rm = set (tl indices)
            \<and> renamed_to cs cs' (hd indices) (B @ ''.pdf'')
            \<and> (\<forall>j. j \<noteq> hd indices \<longrightarrow> cs' ! j = cs ! j)
            \<and> deduped st' = deduped st + (length indices - 1))
        \<and> (2 \<le> length (hash_classes fs cs indices) \<longrightarrow>
              rm = set indices - set (class_keepers fs cs indices)
            \<and> distinct (class_keepers fs cs indices)
            \<and> map (source_hash fs cs) (class_keepers fs cs indices) = hash_classes fs cs indices
            \<and> (\<forall>k < length (hash_classes fs cs indices).
                  renamed_to cs cs' (class_keepers fs cs indices ! k)
                    (B @ ''_'' @ show_nat (Suc k) @ ''.pdf''))
            \<and> (\<forall>j. j \<notin> set (class_keepers fs cs indices) \<longrightarrow> cs' ! j = cs ! j)))"
proof (intro impI)
  assume a: "indices \<noteq> [] \<and> distinct indices \<and> list_all (\<lambda>i. i < length cs) indices
             \<and> CHR ''/'' \<notin> set B"
  then have a1: "indices \<noteq> []" and a2: "distinct indices"
    and a3: "list_all (\<lambda>i. i < length cs) indices" and a4: "CHR ''/'' \<notin> set B"
    by simp_all
  have "hash_classes fs cs indices \<noteq> []"
    using a1 by (metis first_seen_set hash_classes_def map_is_Nil_conv set_empty)
  then consider (one) "length (hash_classes fs cs indices) = 1"
    | (many) "2 \<le> length (hash_classes fs cs indices)"
    by (cases "hash_classes fs cs indices"; cases "tl (hash_classes fs cs indices)") auto
  then show "\<exists>cs' rm st' on'.
        rename_dedup_group fs cs indices B st on = Some (cs', rm, st', on')
        \<and> length cs' = length cs
        \<and> (length (hash_classes fs cs indices) = 1 \<longrightarrow>
              rm = set (tl indices)
            \<and> renamed_to cs cs' (hd indices) (B @ ''.pdf'')
            \<and> (\<forall>j. j \<noteq> hd indices \<longrightarrow> cs' ! j = cs ! j)
            \<and> deduped st' = deduped st + (length indices - 1))
        \<and> (2 \<le> length (hash_classes fs cs indices) \<longrightarrow>
              rm = set indices - set (class_keepers fs cs indices)
            \<and> distinct (class_keepers fs cs indices)
            \<and> map (source_hash fs cs) (class_keepers fs cs indices) = hash_classes fs cs indices
            \<and> (\<forall>k < length (hash_classes fs cs indices).
                  renamed_to cs cs' (class_keepers fs cs indices ! k)
                    (B @ ''_'' @ show_nat (Suc k) @ ''.pdf''))
            \<and> (\<forall>j. j \<notin> set (class_keepers fs cs indices) \<longrightarrow> cs' ! j = cs ! j))"
  proof cases
    case one
    from rename_dedup_single[OF a1 a3 a4 one, of st on]
    obtain cs' st' on' where
      "rename_dedup_group fs cs indices B st on = Some (cs', set (tl indices), st', on')"
      "length cs' = length cs" "renamed_to cs cs' (hd indices) (B @ ''.pdf'')"
      "\<forall>j. j \<noteq> hd indices \<longrightarrow> cs' ! j = cs ! j"
      "deduped st' = deduped st + (length indices - 1)"
      by blast
    then show ?thesis
      using one
      by (intro exI[of _ cs'] exI[of _ "set (tl indices)"] exI[of _ st'] exI[of _ on']) simp
  next
    case many
    from rename_dedup_multi[OF a1 a2 a3 a4 many, of st on]
    obtain cs' st' on' where
      "rename_dedup_group fs cs indices B st on
        = Some (cs', set indices - set (class_keepers fs cs indices), st', on')"
      "length cs' = length cs"
      "\<forall>k < length (hash_classes fs cs indices).
            renamed_to cs cs' (class_keepers fs cs indices ! k) (B @ ''_'' @ show_nat (Suc k) @ ''.pdf'')"
      "\<forall>j. j \<notin> set (class_keepers fs cs indices) \<longrightarrow> cs' ! j = cs ! j"
      by blast
    then show ?thesis
      using many keepers_distinct[of fs cs indices] keepers_hash[of fs cs indices]
      by (intro exI[of _ cs'] exI[of _ "set indices - set (class_keepers fs cs indices)"]
          exI[of _ st'] exI[of _ on']) simp
  qed
qed

lemma dedup_demo:
  "hash_classes dedup_fs dedup_changes [0, Suc 0, 2]
     = [''0cc175b9c0f1b6a831c399e269772661'', ''92eb5ffee6ae2fec3ad71c777531578f'']"
  "class_keepers dedup_fs dedup_changes [0, Suc 0, 2] = [0, 2]"
  "hash_classes dedup_fs dedup_changes [0, Suc 0] = [''0cc175b9c0f1b6a831c399e269772661'']"
  "list_all (\<lambda>i. i < length dedup_changes) [0, Suc 0, 2]"
  "list_all (\<lambda>i. i < length dedup_changes) [0, Suc 0]"
  by code_simp+

lemma show_nat_small: "show_nat (Suc 0) = ''1''" "show_nat (Suc (Suc 0)) = ''2''"
  by (simp_all add: show_nat.simps digits_def)

theorem C7_rename_dedup_group_witness:
  "distinct [0, Suc 0, 2] \<and> list_all (\<lambda>i. i < length dedup_changes) [0, Suc 0, 2]
   \<and> CHR ''/'' \<notin> set ''cc''
   \<and> length (hash_classes dedup_fs dedup_changes [0, Suc 0, 2]) = 2
   \<and> class_keepers dedup_fs dedup_changes [0, Suc 0, 2] = [0, 2]
   \<and> (\<exists>cs' st' on'.
         rename_dedup_group dedup_fs dedup_changes [0, Suc 0, 2] ''cc'' \<lparr>renamed = 0, deduped = 0\<rparr> Map.empty
           = Some (cs', {Suc 0}, st', on')
         \<and> renamed_to dedup_changes cs' 0 ''cc_1.pdf''
         \<and> renamed_to dedup_changes cs' 2 ''cc_2.pdf''
         \<and> cs' ! Suc 0 = dedup_changes ! Suc 0)
   \<and> length (hash_classes dedup_fs dedup_changes [0, Suc 0]) = 1
   \<and> (\<exists>cs' st' on'.
         rename_dedup_group dedup_fs dedup_changes [0, Suc 0] ''cc'' \<lparr>renamed = 0, deduped = 0\<rparr> Map.empty
           = Some (cs', {Suc 0}, st', on')
         \<and> renamed_to dedup_changes cs' 0 ''cc.pdf''
         \<and> deduped st' = 1)"
proof -
  have h3: "[0, Suc 0, 2] \<noteq> [] \<and> distinct [0, Suc 0, 2]
            \<and> list_all (\<lambda>i. i < length dedup_changes) [0, Suc 0, 2] \<and> CHR ''/'' \<notin> set ''cc''"
    using dedup_demo(4) by simp
  have h2: "[0, Suc 0] \<noteq> [] \<and> distinct [0, Suc 0]
            \<and> list_all (\<lambda>i. i < length dedup_changes) [0, Suc 0] \<and> CHR ''/'' \<notin> set ''cc''"
    using dedup_demo(5) by simp
  have rm: "set [0, Suc 0, 2] - set [0, 2 :: nat] = {Suc 0}" by auto
  have k2: "\<forall>k < 2. P k \<Longrightarrow> P 0 \<and> P (Suc 0)" for P :: "nat \<Rightarrow> bool" by simp
  from C7_rename_dedup_group[of "[0, Suc 0, 2]" dedup_changes "''cc''" dedup_fs
      "\<lparr>renamed = 0, deduped = 0\<rparr>" Map.empty] h3
  obtain cs' rm' st' on' where
    r: "rename_dedup_group dedup_fs dedup_changes [0, Suc 0, 2] ''cc'' \<lparr>renamed = 0, deduped = 0\<rparr> Map.empty
          = Some (cs', rm', st', on')"
    and m: "2 \<le> length (hash_classes dedup_fs dedup_changes [0, Suc 0, 2]) \<longrightarrow>
              rm' = set [0, Suc 0, 2] - set (class_keepers dedup_fs dedup_changes [0, Suc 0, 2])
            \<and> (\<forall>k < length (hash_classes dedup_fs dedup_changes [0, Suc 0, 2]).
                  renamed_to dedup_changes cs' (class_keepers dedup_fs dedup_changes [0, Suc 0, 2] ! k)
                    (''cc'' @ ''_'' @ show_nat (Suc k) @ ''.pdf''))
            \<and> (\<forall>j. j \<notin> set (class_keepers dedup_fs dedup_changes [0, Suc 0, 2]) \<longrightarrow> cs' ! j = dedup_changes ! j)"
    by blast
  from m have rm': "rm' = {Suc 0}"
    and kk: "\<forall>k < 2. renamed_to dedup_changes cs' ([0, 2] ! k) (''cc'' @ ''_'' @ show_nat (Suc k) @ ''.pdf'')"
    and oo: "\<forall>j. j \<notin> set [0, 2 :: nat] \<longrightarrow> cs' ! j = dedup_changes ! j"
    using rm by (simp_all add: dedup_demo)
  from k2[OF kk] have n1: "renamed_to dedup_changes cs' 0 ''cc_1.pdf''"
    and n2: "renamed_to dedup_changes cs' 2 ''cc_2.pdf''"
    by (simp_all add: show_nat_small)
  from oo have u: "cs' ! Suc 0 = dedup_changes ! Suc 0" by simp
  have A: "\<exists>cs' st' on'.
         rename_dedup_group dedup_fs dedup_changes [0, Suc 0, 2] ''cc'' \<lparr>renamed = 0, deduped = 0\<rparr> Map.empty
           = Some (cs', {Suc 0}, st', on')
         \<and> renamed_to dedup_changes cs' 0 ''cc_1.pdf''
         \<and> renamed_to dedup_changes cs' 2 ''cc_2.pdf''
         \<and> cs' ! Suc 0 = dedup_changes ! Suc 0"
    using r rm' n1 n2 u by blast
  from C7_rename_dedup_group[of "[0, Suc 0]" dedup_changes "''cc''" dedup_fs
      "\<lparr>renamed = 0, deduped = 0\<rparr>" Map.empty] h2
  obtain cs2 rm2 st2 on2 where
    r2: "rename_dedup_group dedup_fs dedup_changes [0, Suc 0] ''cc'' \<lparr>renamed = 0, deduped = 0\<rparr> Map.empty
          = Some (cs2, rm2, st2, on2)"
    and s2: "length (hash_classes dedup_fs dedup_changes [0, Suc 0]) = 1 \<longrightarrow>
              rm2 = set (tl [0, Suc 0])
            \<and> renamed_to dedup_changes cs2 (hd [0, Suc 0]) (''cc'' @ ''.pdf'')
            \<and> deduped st2 = deduped \<lparr>renamed = 0, deduped = 0\<rparr> + (length [0, Suc 0] - 1)"
    by blast
  from s2 have "rm2 = {Suc 0}" "renamed_to dedup_changes cs2 0 ''cc.pdf''" "deduped st2 = 1"
    by (simp_all add: dedup_demo)
  with r2 have B: "\<exists>cs' st' on'.
         rename_dedup_group dedup_fs dedup_changes [0, Suc 0] ''cc'' \<lparr>renamed = 0, deduped = 0\<rparr> Map.empty
           = Some (cs', {Suc 0}, st', on')
         \<and> renamed_to dedup_changes cs' 0 ''cc.pdf''
         \<and> deduped st' = 1"
    by blast
  show ?thesis
    using A B dedup_demo by simp
qed

subsection \<open>Facts about the parent VIN and the keeper\<close>

lemma first_some_SomeD: "first_some f xs = Some y \<Longrightarrow> \<exists>x \<in> set xs. f x = Some y"
  by (induction xs) (auto split: option.splits)

lemma run_StarD: "run s (Star k # r) (i, a, b) = Some y \<Longrightarrow> \<exists>n. run s r (i + n, a, b) = Some y"
  by (simp only: run.simps) (blast dest: first_some_SomeD)

lemma run_PlusD: "run s (Plus k # r) (i, a, b) = Some y \<Longrightarrow> \<exists>n. run s r (i + n, a, b) = Some y"
  by (simp only: run.simps) (blast dest: first_some_SomeD)

lemma run_LazyPlusD: "run s (LazyPlus k # r) (i, a, b) = Some y \<Longrightarrow> \<exists>n. run s r (i + n, a, b) = Some y"
  by (simp only: run.simps) (blast dest: first_some_SomeD)

lemma run_no_caps:
  "no_caps p \<Longrightarrow> run s p (i, a, b) = Some (e, a', b') \<Longrightarrow> a' = a \<and> b' = b"
proof (induction p arbitrary: i)
  case Nil
  then show ?case by simp
next
  case (Cons x p)
  then have nc: "no_caps p" by (simp add: no_caps_def)
  note IH = Cons.IH[OF nc]
  show ?case
  proof (cases x)
    case (Ch k) with Cons.prems IH show ?thesis by (auto split: if_splits)
  next
    case (Star k) with Cons.prems IH show ?thesis by (blast dest: run_StarD)
  next
    case (Plus k) with Cons.prems IH show ?thesis by (blast dest: run_PlusD)
  next
    case (LazyPlus k) with Cons.prems IH show ?thesis by (blast dest: run_LazyPlusD)
  next
    case (Rep n k) with Cons.prems IH show ?thesis by (auto split: if_splits)
  next
    case Open with Cons.prems show ?thesis by (simp add: no_caps_def)
  next
    case Close with Cons.prems show ?thesis by (simp add: no_caps_def)
  next
    case Bos with Cons.prems IH show ?thesis by (auto split: if_splits)
  next
    case Eos with Cons.prems IH show ?thesis by (auto split: if_splits)
  next
    case WordB with Cons.prems IH show ?thesis by (auto split: if_splits)
  next
    case (NotBehind k) with Cons.prems IH show ?thesis by (auto split: if_splits)
  next
    case (NotAhead k) with Cons.prems IH show ?thesis by (auto split: if_splits)
  qed
qed

lemma run_group_len:
  "no_caps post \<Longrightarrow> 0 < n \<Longrightarrow>
   run s (pre @ Open # Rep n k # Close # post) (i, a, b) = Some (e, a', b') \<Longrightarrow>
     b' = a' + n \<and> b' \<le> length s"
proof (induction pre arbitrary: i a b)
  case Nil
  then have sp: "n \<le> span k s i" and r: "run s post (i + n, i, i + n) = Some (e, a', b')"
    by (auto split: if_splits)
  from run_no_caps[OF Nil.prems(1) r] have "a' = i" "b' = i + n" by simp_all
  moreover have "i + n \<le> length s" using sp span_le[of k s i] Nil.prems(2) by simp
  ultimately show ?case by simp
next
  case (Cons x pre)
  note IH = Cons.IH[OF Cons.prems(1,2)]
  show ?case
  proof (cases x)
    case (Ch k') with Cons.prems(3) IH show ?thesis by (auto split: if_splits)
  next
    case (Star k') with Cons.prems(3) IH show ?thesis by (simp only: append_Cons) (blast dest: run_StarD)
  next
    case (Plus k') with Cons.prems(3) IH show ?thesis by (simp only: append_Cons) (blast dest: run_PlusD)
  next
    case (LazyPlus k') with Cons.prems(3) IH show ?thesis by (simp only: append_Cons) (blast dest: run_LazyPlusD)
  next
    case (Rep m k') with Cons.prems(3) IH show ?thesis by (auto split: if_splits)
  next
    case Open with Cons.prems(3) IH show ?thesis by auto
  next
    case Close with Cons.prems(3) IH show ?thesis by auto
  next
    case Bos with Cons.prems(3) IH show ?thesis by (auto split: if_splits)
  next
    case Eos with Cons.prems(3) IH show ?thesis by (auto split: if_splits)
  next
    case WordB with Cons.prems(3) IH show ?thesis by (auto split: if_splits)
  next
    case (NotBehind k') with Cons.prems(3) IH show ?thesis by (auto split: if_splits)
  next
    case (NotAhead k') with Cons.prems(3) IH show ?thesis by (auto split: if_splits)
  qed
qed

lemma group_len:
  assumes "no_caps post" "0 < n" "re_match (pre @ Open # Rep n k # Close # post) s = Some m"
  shows "length (group1 s m) = n"
proof -
  obtain e a' b' where m: "m = (e, a', b')" by (cases m) auto
  from run_group_len[OF assms(1,2), of s pre k 0 0 0 e a' b'] assms(3)
  have "b' = a' + n" "b' \<le> length s" by (simp_all add: re_match_def m)
  then show ?thesis by (simp add: group1_def m)
qed

lemma ci_no_caps: "no_caps (ci w)"
  by (simp add: no_caps_def ci_def list_all_iff)

lemma no_caps_append: "no_caps (p @ q) = (no_caps p \<and> no_caps q)"
  by (simp add: no_caps_def)

lemma FL_group_len: "re_match FL_PATTERN s = Some m \<Longrightarrow> length (group1 s m) = 17"
proof -
  have "FL_PATTERN =
      (ci ''FL'' @ [Star ws, Ch (In ''-''), Star ws, LazyPlus dot, Star ws, Ch (In ''-''), Star ws])
      @ Open # Rep 17 AZ09_i # Close # ([Star dot, Ch (In ''.'')] @ ci ''pdf'' @ [Eos])"
    by (simp add: FL_PATTERN_def)
  moreover have "no_caps [Star dot, Ch (In ''.'')]" "no_caps [Eos]"
    by (simp_all add: no_caps_def)
  then have "no_caps ([Star dot, Ch (In ''.'')] @ ci ''pdf'' @ [Eos])"
    by (simp only: no_caps_append ci_no_caps simp_thms)
  ultimately show "re_match FL_PATTERN s = Some m \<Longrightarrow> length (group1 s m) = 17"
    using group_len[of _ 17] by (metis zero_less_numeral)
qed

lemma SERIEC_group_len: "re_match SERIEC_PATTERN s = Some m \<Longrightarrow> length (group1 s m) = 17"
proof -
  have "SERIEC_PATTERN = ci ''seriec_'' @ Open # Rep 17 AZ09_i # Close # [Ch (In ''_'')]"
    by (simp add: SERIEC_PATTERN_def)
  moreover have "no_caps [Ch (In ''_'')]" by (simp add: no_caps_def)
  ultimately show "re_match SERIEC_PATTERN s = Some m \<Longrightarrow> length (group1 s m) = 17"
    using group_len[of _ 17] by (metis zero_less_numeral)
qed

lemma pool_of_len: "pool_of fn = Some (k, v) \<Longrightarrow> length v = 17"
  by (auto simp: pool_of_def is_valid_vin_def FL_group_len SERIEC_group_len
      split: option.splits if_splits)

lemma feeds_len: "v \<in> set (feeds k fn) \<Longrightarrow> length v = 17"
  by (auto simp: feeds_def split: option.splits if_splits dest: pool_of_len[OF sym] pool_of_len)

lemma pool_len: "v \<in> set (pool k items) \<Longrightarrow> length v = 17"
  by (auto simp: pool_def dest: feeds_len)

lemma pool_Cons:
  "pool k (e # rest) = (if is_pdf e then feeds k (entry_name e) else []) @ pool k rest"
  by (simp add: pool_def)

lemma scan_pools_acc:
  "scan_pools items (a, b, c) = (a @ pool 1 items, b @ pool 2 items, c @ pool 3 items)"
proof (induction items arbitrary: a b c)
  case Nil
  then show ?case by (simp add: pool_def)
next
  case (Cons e rest)
  show ?case
  proof (cases "is_pdf e")
    case False
    then show ?thesis by (simp add: Cons pool_Cons)
  next
    case True
    then show ?thesis
      by (simp add: Cons pool_Cons feeds_def pool_of_def split: option.splits)
  qed
qed

lemma scan_pools_pools:
  "scan_pools items ([], [], []) = (pool 1 items, pool 2 items, pool 3 items)"
  by (simp add: scan_pools_acc)

lemma foldl_first_max:
  fixes key :: "'a \<Rightarrow> nat"
  shows "foldl (\<lambda>best y. if key best < key y then y else best) x xs = m \<Longrightarrow>
     m \<in> set (x # xs) \<and> (\<forall>y \<in> set (x # xs). key y \<le> key m)
     \<and> (\<forall>y \<in> set (takeWhile (\<lambda>z. z \<noteq> m) (x # xs)). key y < key m)"
proof (induction xs arbitrary: x)
  case Nil
  then show ?case by simp
next
  case (Cons y ys)
  show ?case
  proof (cases "key x < key y")
    case True
    with Cons.prems have "foldl (\<lambda>best y. if key best < key y then y else best) y ys = m" by simp
    from Cons.IH[OF this] have m: "m \<in> set (y # ys)" and le: "\<forall>z \<in> set (y # ys). key z \<le> key m"
      and lt: "\<forall>z \<in> set (takeWhile (\<lambda>z. z \<noteq> m) (y # ys)). key z < key m" by simp_all
    from le True have xm: "key x < key m" by force
    then have "x \<noteq> m" by auto
    then show ?thesis using m le lt xm by auto
  next
    case False
    with Cons.prems have "foldl (\<lambda>best y. if key best < key y then y else best) x ys = m" by simp
    from Cons.IH[OF this] have m: "m \<in> set (x # ys)" and le: "\<forall>z \<in> set (x # ys). key z \<le> key m"
      and lt: "\<forall>z \<in> set (takeWhile (\<lambda>z. z \<noteq> m) (x # ys)). key z < key m" by simp_all
    show ?thesis
    proof (cases "x = m")
      case True
      then show ?thesis using le False by auto
    next
      case xm: False
      then have kx: "key x < key m" using lt by simp
      with False have ky: "key y < key m" by simp
      then have "y \<noteq> m" by auto
      then show ?thesis using m le lt xm kx ky by auto
    qed
  qed
qed

lemma max_by_first_max:
  assumes "xs \<noteq> []"
  shows "\<exists>m. max_by key xs = Some m \<and> m \<in> set xs \<and> (\<forall>y \<in> set xs. key y \<le> key m)
           \<and> (\<forall>y \<in> set (takeWhile (\<lambda>z. z \<noteq> m) xs). key y < key m)"
proof -
  obtain x r where xs: "xs = x # r" using assms by (cases xs) auto
  show ?thesis unfolding xs using foldl_first_max[of key x r] by simp
qed

lemma mode_of_is_mode:
  assumes "set_iteration it" "P \<noteq> []"
  shows "\<exists>v. mode_of it P = Some v \<and> is_mode P v"
proof -
  have s: "set (it P) = set P" using assms(1) by (simp add: set_iteration_def)
  then have "it P \<noteq> []" using assms(2) by auto
  from max_by_first_max[OF this, of "count_list P"]
  obtain m where m: "max_by (count_list P) (it P) = Some m" "m \<in> set (it P)"
    "\<forall>y \<in> set (it P). count_list P y \<le> count_list P m" by blast
  have "count_list P w \<le> count_list P m" for w
  proof (cases "w \<in> set P")
    case True then show ?thesis using m(3) s by simp
  next
    case False then show ?thesis by (simp add: count_list_0_iff)
  qed
  then show ?thesis using m s by (auto simp: mode_of_def is_mode_def)
qed

lemma first_sorted_Min:
  "xs \<noteq> [] \<Longrightarrow> (case sort xs of [] \<Rightarrow> None | x # r \<Rightarrow> Some x) = Some (Min (set xs))"
proof -
  assume ne: "xs \<noteq> []"
  then obtain y ys where s: "sort xs = y # ys"
    by (cases "sort xs") (auto dest: arg_cong[where f = length])
  have "sorted (y # ys)" "set (y # ys) = set xs" by (simp_all flip: s)
  then have "Min (set xs) = y"
    by (intro Min_eqI) auto
  then show ?thesis by (simp add: s)
qed

lemma get_parent_vin_first_pool:
  "get_parent_vin it (Some items) =
     (if first_pool items \<noteq> [] then mode_of it (first_pool items) else None)"
  by (simp add: get_parent_vin_def scan_pools_pools first_pool_def)

lemma first_pool_len: "v \<in> set (first_pool items) \<Longrightarrow> length v = 17"
  by (auto simp: first_pool_def pool_len split: if_splits)

text \<open>
  C5, as stated, fails: a file \<^verbatim>\<open>seriec_AAAAAAAAAAAAAAA11_doc.txt\<close> matches the seriec
  pattern, so the pool P2 of the claim holds its VIN, but \<^verbatim>\<open>get_parent_vin\<close> skips every
  file whose suffix is not \<^verbatim>\<open>.pdf\<close> and the parent is the first VIN subdirectory.
\<close>

theorem C5_non_pdf_counterexample:
  "spec_pool 1 txt_items = []
   \<and> spec_pool 2 txt_items = [''AAAAAAAAAAAAAAA11'']
   \<and> multi_car_parent remdups (Some txt_items) [''BBBBBBBBBBBBBBB22''] = Some ''BBBBBBBBBBBBBBB22''"
  by code_simp

text \<open>
  C5, amended: the files directly in the folder whose suffix is \<^verbatim>\<open>.pdf\<close> (in any case)
  feed the pools, each the pool of the first of the three patterns that its name matches
  (FL, seriec, VIN prefix); the parent VIN is a most frequent element of the first
  non-empty pool in that order, and when the three pools are empty it is the
  lexicographically first name among the VIN-named subdirectories.
\<close>

theorem C5_parent_vin:
  "set_iteration it \<longrightarrow>
     scan_pools items ([], [], []) = (pool 1 items, pool 2 items, pool 3 items)
     \<and> (first_pool items \<noteq> [] \<longrightarrow>
          (\<exists>v. multi_car_parent it (Some items) subdirs = Some v \<and> is_mode (first_pool items) v))
     \<and> (first_pool items = [] \<and> subdirs \<noteq> [] \<longrightarrow>
          multi_car_parent it (Some items) subdirs = Some (Min (set subdirs)))"
proof (intro impI conjI)
  show "scan_pools items ([], [], []) = (pool 1 items, pool 2 items, pool 3 items)"
    by (rule scan_pools_pools)
next
  assume it: "set_iteration it" and ne: "first_pool items \<noteq> []"
  from mode_of_is_mode[OF it ne] obtain v where v: "mode_of it (first_pool items) = Some v"
    "is_mode (first_pool items) v" by blast
  then have "v \<in> set (first_pool items)" by (simp add: is_mode_def)
  then have "length v = 17" by (rule first_pool_len)
  then have "v \<noteq> []" by auto
  then have "multi_car_parent it (Some items) subdirs = Some v"
    using v(1) ne by (simp add: multi_car_parent_def get_parent_vin_first_pool)
  with v(2) show "\<exists>v. multi_car_parent it (Some items) subdirs = Some v \<and> is_mode (first_pool items) v"
    by blast
next
  assume "first_pool items = [] \<and> subdirs \<noteq> []"
  then show "multi_car_parent it (Some items) subdirs = Some (Min (set subdirs))"
    by (simp add: multi_car_parent_def get_parent_vin_first_pool first_sorted_Min)
qed

lemma set_iteration_remdups: "set_iteration remdups"
  by (simp add: set_iteration_def)

theorem C5_parent_vin_witness:
  "set_iteration remdups
   \<and> first_pool multi_items = [''AAAAAAAAAAAAAAA11'']
   \<and> multi_car_parent remdups (Some multi_items) [''CCCCCCCCCCCCCCC33'', ''BBBBBBBBBBBBBBB22'']
        = Some ''AAAAAAAAAAAAAAA11''
   \<and> is_mode (first_pool multi_items) ''AAAAAAAAAAAAAAA11''
   \<and> first_pool notes_items = []
   \<and> multi_car_parent remdups (Some notes_items) [''CCCCCCCCCCCCCCC33'', ''BBBBBBBBBBBBBBB22'']
        = Some ''BBBBBBBBBBBBBBB22''"
proof -
  have f1: "first_pool multi_items = [''AAAAAAAAAAAAAAA11'']" by code_simp
  have f2: "first_pool notes_items = []" by code_simp
  have mn: "Min (set [''CCCCCCCCCCCCCCC33'', ''BBBBBBBBBBBBBBB22'']) = ''BBBBBBBBBBBBBBB22''"
    by code_simp
  note t1 = C5_parent_vin[of remdups multi_items "[''CCCCCCCCCCCCCCC33'', ''BBBBBBBBBBBBBBB22'']"]
  note t2 = C5_parent_vin[of remdups notes_items "[''CCCCCCCCCCCCCCC33'', ''BBBBBBBBBBBBBBB22'']"]
  from t1 set_iteration_remdups f1 obtain v where
    v: "multi_car_parent remdups (Some multi_items) [''CCCCCCCCCCCCCCC33'', ''BBBBBBBBBBBBBBB22''] = Some v"
    "is_mode (first_pool multi_items) v"
    by auto
  then have "v = ''AAAAAAAAAAAAAAA11''" by (simp add: f1 is_mode_def)
  with v have a: "multi_car_parent remdups (Some multi_items) [''CCCCCCCCCCCCCCC33'', ''BBBBBBBBBBBBBBB22'']
        = Some ''AAAAAAAAAAAAAAA11''" "is_mode (first_pool multi_items) ''AAAAAAAAAAAAAAA11''"
    by simp_all
  from t2 set_iteration_remdups f2
  have b: "multi_car_parent remdups (Some notes_items) [''CCCCCCCCCCCCCCC33'', ''BBBBBBBBBBBBBBB22'']
        = Some ''BBBBBBBBBBBBBBB22''"
    using mn by simp
  show ?thesis using set_iteration_remdups f1 f2 a b by simp
qed

lemma foldl_concat_flat: "foldl f a (concat xss) = foldl (foldl f) a xss"
  by (induction xss arbitrary: a) auto

lemma vin_counts_of_flat:
  "vin_counts_of it d = foldl (\<lambda>c v. bump v c) [] (concat (map (\<lambda>entry. it (snd entry)) d))"
proof -
  have "foldl (\<lambda>counts entry. foldl (\<lambda>c v. bump v c) counts (it (snd entry))) a d
        = foldl (foldl (\<lambda>c v. bump v c)) a (map (\<lambda>entry. it (snd entry)) d)" for a
    by (induction d arbitrary: a) auto
  then show ?thesis by (simp add: vin_counts_of_def foldl_concat_flat)
qed

lemma bump_map:
  "distinct ks \<Longrightarrow>
     bump k (map (\<lambda>v. (v, f v)) ks) =
       (if k \<in> set ks then map (\<lambda>v. (v, if v = k then Suc (f v) else f v)) ks
        else map (\<lambda>v. (v, f v)) ks @ [(k, 1)])"
  by (induction ks) auto

lemma counts_of_list:
  "foldl (\<lambda>c v. bump v c) [] xs = map (\<lambda>v. (v, count_list xs v)) (first_seen xs)"
proof (induction xs rule: rev_induct)
  case Nil
  then show ?case by (simp add: first_seen_def)
next
  case (snoc x xs)
  show ?case
  proof (cases "x \<in> set xs")
    case True
    then show ?thesis
      by (simp add: snoc first_seen_snoc bump_map)
  next
    case False
    then have "count_list xs x = 0" by (simp add: count_list_0_iff)
    moreover have "\<forall>y \<in> set xs. x \<noteq> y" using False by auto
    ultimately show ?thesis using False
      by (simp add: snoc first_seen_snoc bump_map)
  qed
qed

lemma map_of_graph:
  "v \<in> set ks \<Longrightarrow> map_of (map (\<lambda>v. (v, g v)) ks) v = Some (g v)"
  by (induction ks) auto

lemma foldl_max_cong:
  fixes f g :: "'a \<Rightarrow> nat"
  shows "\<forall>y \<in> set (x # xs). f y = g y \<Longrightarrow>
     foldl (\<lambda>best y. if f best < f y then y else best) x xs
       = foldl (\<lambda>best y. if g best < g y then y else best) x xs"
  by (induction xs arbitrary: x) auto

lemma max_by_cong:
  fixes f g :: "'a \<Rightarrow> nat"
  assumes "\<forall>y \<in> set xs. f y = g y"
  shows "max_by f xs = max_by g xs"
proof (cases xs)
  case Nil
  then show ?thesis by simp
next
  case (Cons a list)
  from assms have "\<forall>y \<in> set (a # list). f y = g y" by (simp add: Cons)
  from foldl_max_cong[OF this] show ?thesis by (simp add: Cons)
qed

lemma count_keeper_met:
  "count_keeper it d =
     max_by (count_list (concat (map (\<lambda>entry. it (snd entry)) d))) (met it d)"
proof -
  let ?seen = "concat (map (\<lambda>entry. it (snd entry)) d)"
  have vc: "vin_counts_of it d = map (\<lambda>v. (v, count_list ?seen v)) (first_seen ?seen)"
    by (simp add: vin_counts_of_flat counts_of_list)
  have keys: "map fst (vin_counts_of it d) = met it d"
    by (simp add: vc met_def comp_def)
  have "\<forall>v \<in> set (met it d).
          (case map_of (vin_counts_of it d) v of Some n \<Rightarrow> n | None \<Rightarrow> 0) = count_list ?seen v"
    by (simp add: vc met_def map_of_graph)
  then show ?thesis
    unfolding count_keeper_def keys by (rule max_by_cong)
qed

lemma count_list_distinct:
  "distinct xs \<Longrightarrow> count_list xs v = (if v \<in> set xs then 1 else 0)"
  by (induction xs) auto

lemma count_seen_occurrences:
  assumes "set_iteration it"
  shows "count_list (concat (map (\<lambda>entry. it (snd entry)) d)) v = occurrences d v"
proof (induction d)
  case Nil
  then show ?case by (simp add: occurrences_def)
next
  case (Cons e d)
  have "distinct (it (snd e))" "set (it (snd e)) = set (snd e)"
    using assms by (simp_all add: set_iteration_def)
  then have "count_list (it (snd e)) v = (if v \<in> set (snd e) then 1 else 0)"
    by (simp add: count_list_distinct)
  then show ?case using Cons by (simp add: occurrences_def)
qed

lemma met_set:
  assumes "set_iteration it"
  shows "set (met it d) = (\<Union>entry \<in> set d. set (snd entry))"
  using assms by (auto simp: met_def set_iteration_def)

lemma dict_set_set:
  "(\<forall>v'. (k, v') \<in> set d \<longrightarrow> v' = v) \<Longrightarrow> set (dict_set k v d) = insert (k, v) (set d)"
proof (induction d)
  case Nil
  then show ?case by simp
next
  case (Cons e d)
  obtain a b where e: "e = (a, b)" by (cases e)
  show ?case
  proof (cases "k = a")
    case True
    then have "b = v" using Cons.prems e by simp
    then show ?thesis using True e by auto
  next
    case False
    have "set (dict_set k v d) = insert (k, v) (set d)"
      using Cons.IH Cons.prems by simp
    then show ?thesis using False e by auto
  qed
qed

lemma flat_scan_loop_inv:
  "scan_inv sc \<Longrightarrow> scan_inv (flat_scan_loop scan_pdf pdf_vins_of items sc)"
proof (induction items arbitrary: sc)
  case Nil
  then show ?case by simp
next
  case (Cons e rest)
  show ?case
  proof (cases "entry_is_file e")
    case False
    then show ?thesis using Cons by simp
  next
    case True
    let ?n = "entry_name e"
    let ?sc' = "\<lparr>file_fn_vins = dict_set ?n (extract_all_vins ?n) (file_fn_vins sc),
           all_fn_vins = all_fn_vins sc @ extract_all_vins ?n,
           all_vins_for_election =
             all_vins_for_election sc
             @ (if scan_pdf \<and> py_lower (name_suffix ?n) = ''.pdf'' then pdf_vins_of ?n else [])
             @ extract_all_vins ?n\<rparr>"
    have "\<forall>v'. (?n, v') \<in> set (file_fn_vins sc) \<longrightarrow> v' = extract_all_vins ?n"
      using Cons.prems by (force simp: scan_inv_def)
    then have s: "set (dict_set ?n (extract_all_vins ?n) (file_fn_vins sc))
                = insert (?n, extract_all_vins ?n) (set (file_fn_vins sc))"
      by (rule dict_set_set)
    have "scan_inv ?sc'"
      using Cons.prems by (auto simp: scan_inv_def s)
    from Cons.IH[OF this] show ?thesis using True by simp
  qed
qed

lemma scan_inv_empty: "scan_inv empty_scan"
  by (simp add: scan_inv_def empty_scan_def)

text \<open>
  C4, as stated, fails: two file names hold one VIN each, the listing gives the name with
  the lexicographically larger VIN first, no parent-VIN pattern matches, and the keeper
  is the VIN met first, not the smaller one.
\<close>

theorem C4_tie_counterexample:
  "get_parent_vin remdups (Some flat_items) = None
   \<and> file_fn_vins (flat_scan_loop False no_pdf_vins flat_items empty_scan)
       = [(''Factura BBBBBBBBBBBBBBB22.pdf'', [''BBBBBBBBBBBBBBB22'']),
          (''Oferta AAAAAAAAAAAAAAA11.pdf'', [''AAAAAAAAAAAAAAA11''])]
   \<and> flat_keeper remdups False no_pdf_vins ''2 cars'' (Some flat_items) = Keeper ''BBBBBBBBBBBBBBB22''
   \<and> ''AAAAAAAAAAAAAAA11'' < ''BBBBBBBBBBBBBBB22''"
  by code_simp

text \<open>
  C4, amended: in a flat folder, when the parent-VIN rule does not apply and at least one
  VIN occurs in the file names, the keeper is a VIN with the maximum number of file names
  holding it; among the VINs with that maximum the keeper is the one that the loop over
  the directory listing meets first (listing order, then the iteration order of each
  name's VIN set), whatever their lexicographic order.
\<close>

theorem C4_flat_keeper:
  "set_iteration it
   \<and> sc = flat_scan_loop scan_pdf pdf_vins_of items empty_scan
   \<and> parent_rule it items (all_fn_vins sc) (all_vins_for_election sc) = None
   \<and> all_fn_vins sc \<noteq> []
   \<longrightarrow>
     (\<exists>k. flat_keeper it scan_pdf pdf_vins_of folder_name (Some items) = Keeper k
        \<and> 0 < occurrences (file_fn_vins sc) k
        \<and> (\<forall>v. occurrences (file_fn_vins sc) v \<le> occurrences (file_fn_vins sc) k)
        \<and> (\<forall>v \<in> set (takeWhile (\<lambda>z. z \<noteq> k) (met it (file_fn_vins sc))).
              occurrences (file_fn_vins sc) v < occurrences (file_fn_vins sc) k))"
proof (intro impI, elim conjE)
  assume it: "set_iteration it"
    and sc: "sc = flat_scan_loop scan_pdf pdf_vins_of items empty_scan"
    and pr: "parent_rule it items (all_fn_vins sc) (all_vins_for_election sc) = None"
    and ne: "all_fn_vins sc \<noteq> []"
  let ?d = "file_fn_vins sc"
  let ?seen = "concat (map (\<lambda>entry. it (snd entry)) ?d)"
  have inv: "scan_inv sc" unfolding sc by (rule flat_scan_loop_inv[OF scan_inv_empty])
  have ms: "set (met it ?d) = set (all_fn_vins sc)"
    using inv by (simp add: met_set[OF it] scan_inv_def)
  then have mne: "met it ?d \<noteq> []" using ne by auto
  have occ: "count_list ?seen v = occurrences ?d v" for v
    by (rule count_seen_occurrences[OF it])
  from max_by_first_max[OF mne, of "count_list ?seen"]
  obtain k where k: "max_by (count_list ?seen) (met it ?d) = Some k" "k \<in> set (met it ?d)"
    "\<forall>y \<in> set (met it ?d). count_list ?seen y \<le> count_list ?seen k"
    "\<forall>y \<in> set (takeWhile (\<lambda>z. z \<noteq> k) (met it ?d)). count_list ?seen y < count_list ?seen k"
    by blast
  have ck: "count_keeper it ?d = Some k" by (simp add: count_keeper_met k(1))
  have fk: "flat_keeper it scan_pdf pdf_vins_of folder_name (Some items) = Keeper k"
    using ne pr ck unfolding sc by (simp add: flat_keeper_def Let_def empty_scan_def)
  have "k \<in> set ?seen" using k(2) by (simp add: met_def)
  then have "count_list ?seen k \<noteq> 0" by (simp add: count_list_0_iff)
  then have pos: "0 < occurrences ?d k" unfolding occ by simp
  have mx: "occurrences ?d v \<le> occurrences ?d k" for v
  proof (cases "v \<in> set (met it ?d)")
    case True
    then show ?thesis using k(3) occ by simp
  next
    case False
    then have "v \<notin> set ?seen" by (simp add: met_def)
    then have "count_list ?seen v = 0" by (simp add: count_list_0_iff)
    then show ?thesis unfolding occ by simp
  qed
  have fst: "\<forall>v \<in> set (takeWhile (\<lambda>z. z \<noteq> k) (met it ?d)). occurrences ?d v < occurrences ?d k"
    using k(4) occ by simp
  show "\<exists>k. flat_keeper it scan_pdf pdf_vins_of folder_name (Some items) = Keeper k
        \<and> 0 < occurrences (file_fn_vins sc) k
        \<and> (\<forall>v. occurrences (file_fn_vins sc) v \<le> occurrences (file_fn_vins sc) k)
        \<and> (\<forall>v \<in> set (takeWhile (\<lambda>z. z \<noteq> k) (met it (file_fn_vins sc))).
              occurrences (file_fn_vins sc) v < occurrences (file_fn_vins sc) k)"
    using fk pos mx fst by blast
qed

lemma flat_items_scan:
  "flat_scan_loop False no_pdf_vins flat_items empty_scan
   = \<lparr>file_fn_vins = [(''Factura BBBBBBBBBBBBBBB22.pdf'', [''BBBBBBBBBBBBBBB22'']),
                        (''Oferta AAAAAAAAAAAAAAA11.pdf'', [''AAAAAAAAAAAAAAA11''])],
      all_fn_vins = [''BBBBBBBBBBBBBBB22'', ''AAAAAAAAAAAAAAA11''],
      all_vins_for_election = [''BBBBBBBBBBBBBBB22'', ''AAAAAAAAAAAAAAA11'']\<rparr>"
  by code_simp

lemma flat_items_parent_rule:
  "parent_rule remdups flat_items [''BBBBBBBBBBBBBBB22'', ''AAAAAAAAAAAAAAA11'']
     [''BBBBBBBBBBBBBBB22'', ''AAAAAAAAAAAAAAA11''] = None"
  by code_simp

lemma flat_items_keeper:
  "flat_keeper remdups False no_pdf_vins ''2 cars'' (Some flat_items) = Keeper ''BBBBBBBBBBBBBBB22''"
  by code_simp

theorem C4_flat_keeper_witness:
  "set_iteration remdups
   \<and> parent_rule remdups flat_items
        (all_fn_vins (flat_scan_loop False no_pdf_vins flat_items empty_scan))
        (all_vins_for_election (flat_scan_loop False no_pdf_vins flat_items empty_scan)) = None
   \<and> all_fn_vins (flat_scan_loop False no_pdf_vins flat_items empty_scan) \<noteq> []
   \<and> flat_keeper remdups False no_pdf_vins ''2 cars'' (Some flat_items) = Keeper ''BBBBBBBBBBBBBBB22''
   \<and> 0 < occurrences (file_fn_vins (flat_scan_loop False no_pdf_vins flat_items empty_scan))
            ''BBBBBBBBBBBBBBB22''
   \<and> (\<forall>v. occurrences (file_fn_vins (flat_scan_loop False no_pdf_vins flat_items empty_scan)) v
          \<le> occurrences (file_fn_vins (flat_scan_loop False no_pdf_vins flat_items empty_scan))
               ''BBBBBBBBBBBBBBB22'')"
proof -
  let ?sc = "flat_scan_loop False no_pdf_vins flat_items empty_scan"
  have p: "parent_rule remdups flat_items (all_fn_vins ?sc) (all_vins_for_election ?sc) = None"
    by (simp only: flat_items_scan flat_scan.simps flat_items_parent_rule)
  have n: "all_fn_vins ?sc \<noteq> []"
    by (simp only: flat_items_scan flat_scan.simps) simp
  from C4_flat_keeper[of remdups ?sc False no_pdf_vins flat_items "''2 cars''"]
  obtain k where k: "flat_keeper remdups False no_pdf_vins ''2 cars'' (Some flat_items) = Keeper k"
    "0 < occurrences (file_fn_vins ?sc) k"
    "\<forall>v. occurrences (file_fn_vins ?sc) v \<le> occurrences (file_fn_vins ?sc) k"
    using set_iteration_remdups p n by blast
  from k(1) have "k = ''BBBBBBBBBBBBBBB22''" by (simp only: flat_items_keeper election.inject)
  with k set_iteration_remdups p n show ?thesis by blast
qed

subsection \<open>Facts about the content reclassification\<close>

lemma contract_text_category: "category_of_text contract_text = Some ''Facturi''"
  by code_simp

lemma contract_text_contract_offset: "earliest_offset ''Contract Cadru'' contract_text = Some 0"
  by code_simp

lemma contract_text_invoice_offset: "earliest_offset ''Facturi'' contract_text = Some 45"
  by code_simp

lemma contract_text_first_position: "first_position_category contract_text = Some ''Contract Cadru''"
  by code_simp

lemma contract_env_scan:
  "scan_pdf_for_category contract_env ''/out/V/contract.pdf'' False
   = category_of_text contract_text"
  by (simp add: scan_pdf_for_category_def contract_env_def)

text \<open>
  C1 at the text of the repository's test \<^verbatim>\<open>test_content_category_dominance\<close>: the words
  \<^verbatim>\<open>CONTRACT CADRU\<close> stand at offset 0 and the first \<^verbatim>\<open>Factura\<close> at offset 45, so the category
  of C1 is Contract Cadru; \<^verbatim>\<open>_scan_pdf_for_category\<close> walks the fixed priority list, where
  Facturi comes first, and answers Facturi.
\<close>

theorem C1_fixed_priority_wins:
  "scan_pdf_for_category contract_env ''/out/V/contract.pdf'' False = Some ''Facturi''
   \<and> earliest_offset ''Contract Cadru'' contract_text = Some 0
   \<and> earliest_offset ''Facturi'' contract_text = Some 45
   \<and> first_position_category contract_text = Some ''Contract Cadru''"
  by (simp only: contract_env_scan contract_text_category contract_text_contract_offset
        contract_text_invoice_offset contract_text_first_position simp_thms)

subsection \<open>Facts about the numbered stem\<close>

lemma first_some_found: "x \<in> set xs \<Longrightarrow> f x \<noteq> None \<Longrightarrow> first_some f xs \<noteq> None"
  by (induction xs) (auto split: option.splits)

lemma span_ge:
  assumes "\<forall>j < m. i + j < length s \<and> mem k (s ! (i + j))"
  shows "m \<le> span k s i"
proof (rule ccontr)
  let ?t = "takeWhile (mem k) (drop i s)"
  assume "\<not> m \<le> span k s i"
  then have lt: "length ?t < m" by (simp add: span_def)
  with assms have a: "i + length ?t < length s" "mem k (s ! (i + length ?t))" by auto
  then have "length ?t < length (drop i s)" by simp
  then have "\<not> mem k (drop i s ! length ?t)" by (rule nth_length_takeWhile)
  with a show False by simp
qed

lemma underscore_not_digit: "CHR ''_'' \<notin> set digits"
  by (simp add: digits_def)

lemma newline_not_underscore: "newline \<noteq> CHR ''_''"
  by (simp add: newline_def)

lemma run_numbered_tail:
  "run s [Close, Ch (In ''_''), Plus (In digits), Eos] (n, 0, 0) = Some m
   \<Longrightarrow> \<exists>k. n < length s \<and> s ! n = CHR ''_'' \<and> 1 \<le> k \<and> k \<le> span (In digits) s (Suc n)
          \<and> (Suc n + k = length s \<or> (Suc (Suc n + k) = length s \<and> s ! (Suc n + k) = newline))
          \<and> m = (Suc n + k, 0, n)"
proof -
  assume a: "run s [Close, Ch (In ''_''), Plus (In digits), Eos] (n, 0, 0) = Some m"
  then have n: "n < length s" "s ! n = CHR ''_''"
    by (auto split: if_splits)
  with a have "first_some (\<lambda>k. run s [Eos] (Suc n + k, 0, n)) (rev [1..<Suc (span (In digits) s (Suc n))]) = Some m"
    by simp
  then obtain k where k: "k \<in> set (rev [1..<Suc (span (In digits) s (Suc n))])"
    "run s [Eos] (Suc n + k, 0, n) = Some m"
    by (blast dest: first_some_SomeD)
  from k(2) have "(Suc n + k = length s \<or> (Suc (Suc n + k) = length s \<and> s ! (Suc n + k) = newline))
      \<and> m = (Suc n + k, 0, n)"
    by (auto split: if_splits)
  with n k(1) show ?thesis by auto
qed

lemma numbered_sound:
  assumes "re_match NUMBERED_STEM s = Some m"
  shows "\<exists>n k. numbered_at s n k \<and> group1 s m = take n s"
proof -
  from assms have "first_some (\<lambda>n. run s [Close, Ch (In ''_''), Plus (In digits), Eos] (0 + n, 0, 0))
                     [1..<Suc (span dot s 0)] = Some m"
    by (simp add: re_match_def NUMBERED_STEM_def)
  then have "\<exists>n \<in> set [1..<Suc (span dot s 0)].
            run s [Close, Ch (In ''_''), Plus (In digits), Eos] (0 + n, 0, 0) = Some m"
    by (rule first_some_SomeD)
  then obtain n where n0: "n \<in> set [1..<Suc (span dot s 0)]"
    "run s [Close, Ch (In ''_''), Plus (In digits), Eos] (0 + n, 0, 0) = Some m"
    by blast
  then have n: "1 \<le> n \<and> n \<le> span dot s 0"
    "run s [Close, Ch (In ''_''), Plus (In digits), Eos] (n, 0, 0) = Some m"
    by (simp_all del: upt_Suc run.simps)
  from run_numbered_tail[OF n(2)] obtain k where
    k: "n < length s" "s ! n = CHR ''_''" "1 \<le> k" "k \<le> span (In digits) s (Suc n)"
       "Suc n + k = length s \<or> (Suc (Suc n + k) = length s \<and> s ! (Suc n + k) = newline)"
       "m = (Suc n + k, 0, n)"
    by blast
  have "numbered_at s n k" using n(1) k(1-5) by (simp add: numbered_at_def)
  moreover have "group1 s m = take n s" using k(6) by (simp add: group1_def)
  ultimately show ?thesis by blast
qed

lemma numbered_complete:
  assumes "numbered_at s n k"
  shows "re_match NUMBERED_STEM s \<noteq> None"
proof -
  from assms have n: "1 \<le> n" "n < length s" "n \<le> span dot s 0" "s ! n = CHR ''_''"
    and k: "1 \<le> k" "k \<le> span (In digits) s (Suc n)"
    and e: "Suc n + k = length s \<or> (Suc (Suc n + k) = length s \<and> s ! (Suc n + k) = newline)"
    by (simp_all add: numbered_at_def)
  have "run s [Eos] (Suc n + k, 0, n) \<noteq> None" using e by auto
  moreover have "k \<in> set (rev [1..<Suc (span (In digits) s (Suc n))])"
    using k by (simp del: upt_Suc)
  ultimately have "first_some (\<lambda>k. run s [Eos] (Suc n + k, 0, n))
                     (rev [1..<Suc (span (In digits) s (Suc n))]) \<noteq> None"
    by (rule first_some_found[rotated])
  then have "run s [Close, Ch (In ''_''), Plus (In digits), Eos] (0 + n, 0, 0) \<noteq> None"
    using n by simp
  moreover have "n \<in> set [1..<Suc (span dot s 0)]" using n by (simp del: upt_Suc)
  ultimately have "first_some (\<lambda>n. run s [Close, Ch (In ''_''), Plus (In digits), Eos] (0 + n, 0, 0))
                     [1..<Suc (span dot s 0)] \<noteq> None"
    by (rule first_some_found[rotated])
  then show ?thesis by (simp add: re_match_def NUMBERED_STEM_def)
qed

lemma numbered_unique_le:
  assumes a: "numbered_at s n k" and b: "numbered_at s n' k'"
  shows "n' \<le> n"
proof (rule ccontr)
  assume "\<not> n' \<le> n"
  then have lt: "n < n'" by simp
  from b have u: "n' < length s" "s ! n' = CHR ''_''" by (simp_all add: numbered_at_def)
  from a have k: "k \<le> span (In digits) s (Suc n)"
    and e: "Suc n + k = length s \<or> (Suc (Suc n + k) = length s \<and> s ! (Suc n + k) = newline)"
    by (simp_all add: numbered_at_def)
  show False
  proof (cases "n' < Suc n + k")
    case True
    then obtain j where j: "n' = Suc n + j" "j < k" using lt by (metis Suc_leI le_Suc_ex nat_add_left_cancel_less)
    then have "j < span (In digits) s (Suc n)" using k by simp
    then have "mem (In digits) (s ! (Suc n + j))" by (rule span_mem)
    then show False using u(2) j(1) underscore_not_digit by simp
  next
    case False
    with e u(1) have "n' = Suc n + k" "s ! (Suc n + k) = newline" by auto
    then show False using u(2) newline_not_underscore by simp
  qed
qed

lemma numbered_unique: "numbered_at s n k \<Longrightarrow> numbered_at s n' k' \<Longrightarrow> n' = n"
  by (meson numbered_unique_le le_antisym)

text \<open>From the parts of a stem to the position of its underscore, and back.\<close>

lemma numbered_at_parts:
  assumes p: "p \<noteq> []" "newline \<notin> set p"
    and ds: "ds \<noteq> []" "list_all (\<lambda>c. c \<in> set digits) ds"
    and fin: "fin = [] \<or> fin = [newline]"
  shows "numbered_at (p @ ''_'' @ ds @ fin) (length p) (length ds)"
proof -
  let ?s = "p @ ''_'' @ ds @ fin"
  have pn: "\<And>j. j < length p \<Longrightarrow> p ! j \<noteq> newline"
    using p(2) by (metis nth_mem)
  have "\<forall>j < length p. 0 + j < length ?s \<and> mem dot (?s ! (0 + j))"
    using pn by (auto simp: dot_def nth_append)
  then have a: "length p \<le> span dot ?s 0" by (rule span_ge)
  have "\<forall>j < length ds. Suc (length p) + j < length ?s \<and> mem (In digits) (?s ! (Suc (length p) + j))"
    using ds(2) by (auto simp: nth_append list_all_length)
  then have b: "length ds \<le> span (In digits) ?s (Suc (length p))" by (rule span_ge)
  have c: "?s ! length p = CHR ''_''" by (simp add: nth_append)
  have d: "Suc (length p) + length ds = length ?s
           \<or> (Suc (Suc (length p) + length ds) = length ?s \<and> ?s ! (Suc (length p) + length ds) = newline)"
    using fin by (auto simp: nth_append)
  show ?thesis
    unfolding numbered_at_def using p(1) ds(1) a b c d
    by (simp add: Suc_le_eq)
qed

lemma parts_numbered_at:
  assumes "numbered_at s n k"
  shows "\<exists>ds fin. s = take n s @ ''_'' @ ds @ fin \<and> take n s \<noteq> [] \<and> newline \<notin> set (take n s)
           \<and> ds \<noteq> [] \<and> list_all (\<lambda>c. c \<in> set digits) ds \<and> (fin = [] \<or> fin = [newline])"
proof -
  from assms have n: "1 \<le> n" "n < length s" "n \<le> span dot s 0" "s ! n = CHR ''_''"
    and k: "1 \<le> k" "k \<le> span (In digits) s (Suc n)"
    and e: "Suc n + k = length s \<or> (Suc (Suc n + k) = length s \<and> s ! (Suc n + k) = newline)"
    by (simp_all add: numbered_at_def)
  let ?ds = "take k (drop (Suc n) s)"
  let ?fin = "drop (Suc n + k) s"
  have kl: "Suc n + k \<le> length s" using e by auto
  have e0: "drop k (drop (Suc n) s) = ?fin" by (simp add: add.commute)
  have e1: "drop (Suc n) s = ?ds @ ?fin" by (metis append_take_drop_id e0)
  have e2: "drop n s = CHR ''_'' # drop (Suc n) s" using n(2) n(4) by (metis Cons_nth_drop_Suc)
  have "take n s @ drop n s = take n s @ ''_'' @ ?ds @ ?fin"
    by (metis e1 e2 append_Cons append_Nil)
  then have s: "s = take n s @ ''_'' @ ?ds @ ?fin" by (simp only: append_take_drop_id)
  have p1: "take n s \<noteq> []" using n by auto
  have p2: "newline \<notin> set (take n s)"
  proof
    assume "newline \<in> set (take n s)"
    then obtain j where j: "j < n" "s ! j = newline"
      using n(2) by (auto simp: in_set_conv_nth)
    then have "j < span dot s 0" using n(3) by simp
    then have "mem dot (s ! (0 + j))" by (rule span_mem)
    then show False using j(2) by (simp add: dot_def)
  qed
  have d1: "?ds \<noteq> []" using k(1) kl by auto
  have d2: "list_all (\<lambda>c. c \<in> set digits) ?ds"
  proof -
    have "\<forall>j < length ?ds. ?ds ! j \<in> set digits"
    proof (intro allI impI)
      fix j assume "j < length ?ds"
      then have jk: "j < k" by simp
      then have "j < span (In digits) s (Suc n)" using k(2) by simp
      then have "mem (In digits) (s ! (Suc n + j))" by (rule span_mem)
      moreover have "?ds ! j = s ! (Suc n + j)" using jk kl by simp
      ultimately show "?ds ! j \<in> set digits" by simp
    qed
    then show ?thesis by (simp only: list_all_length)
  qed
  have t: "?fin = [] \<or> ?fin = [newline]"
  proof (cases "Suc n + k = length s")
    case True
    then show ?thesis by simp
  next
    case False
    with e have l: "Suc (Suc n + k) = length s" "s ! (Suc n + k) = newline" by auto
    then have "?fin = s ! (Suc n + k) # drop (Suc (Suc n + k)) s"
      by (metis Cons_nth_drop_Suc lessI)
    then show ?thesis using l by simp
  qed
  show ?thesis using s p1 p2 d1 d2 t by blast
qed

lemma base_stem_strip:
  assumes "p \<noteq> []" "newline \<notin> set p" "ds \<noteq> []" "list_all (\<lambda>c. c \<in> set digits) ds"
    "fin = [] \<or> fin = [newline]"
  shows "base_stem (p @ ''_'' @ ds @ fin) = p"
proof -
  let ?s = "p @ ''_'' @ ds @ fin"
  have a: "numbered_at ?s (length p) (length ds)" using assms by (rule numbered_at_parts)
  then obtain m where m: "re_match NUMBERED_STEM ?s = Some m"
    using numbered_complete by blast
  from numbered_sound[OF m] obtain n k where nk: "numbered_at ?s n k" "group1 ?s m = take n ?s"
    by blast
  have "n = length p" using numbered_unique[OF nk(1) a] by simp
  then have g: "group1 ?s m = p" using nk(2) by simp
  show ?thesis unfolding base_stem_def m using g by simp
qed

lemma base_stem_keep:
  assumes "\<not> (\<exists>p ds fin. s = p @ ''_'' @ ds @ fin \<and> p \<noteq> [] \<and> newline \<notin> set p \<and> ds \<noteq> []
               \<and> list_all (\<lambda>c. c \<in> set digits) ds \<and> (fin = [] \<or> fin = [newline]))"
  shows "base_stem s = s"
proof (cases "re_match NUMBERED_STEM s")
  case None
  then show ?thesis by (simp add: base_stem_def)
next
  case (Some m)
  from numbered_sound[OF Some] obtain n k where "numbered_at s n k" by blast
  from parts_numbered_at[OF this] assms show ?thesis by blast
qed

subsection \<open>Facts about the executor\<close>

lemma retry_range: "[0..<RETRY_ATTEMPTS] = [0, 1, 2, 3, 4]"
  by code_simp

lemma sleeps_append: "sleeps (xs @ ys) = sleeps xs @ sleeps ys"
  by (induction xs rule: sleeps.induct) auto

lemma copy_calls_append: "copy_calls (xs @ ys) = copy_calls xs + copy_calls ys"
  by (induction xs rule: copy_calls.induct) auto

lemma sleeps_lock_steps: "sleeps (lock_steps s d ks) = map (\<lambda>k. RETRY_BASE_DELAY * 2 ^ k) ks"
  by (induction ks) (auto simp: lock_steps_def)

lemma copy_calls_lock_steps: "copy_calls (lock_steps s d ks) = length ks"
  by (induction ks) (auto simp: lock_steps_def)

lemma retry_range_split:
  "n < 5 \<Longrightarrow> [0..<RETRY_ATTEMPTS] = [0..<n] @ n # [Suc n..<5]"
  by (metis RETRY_ATTEMPTS_def le0 le_Suc_ex less_imp_le_nat upt_add_eq_append upt_conv_Cons)

lemma all_locked_iff: "all_locked (copy2_raises os) ks \<longleftrightarrow> (\<forall>k \<in> set ks. locked_at os k)"
proof -
  have "(case copy2_raises os k of None \<Rightarrow> False | Some e \<Rightarrow> is_lock_error e) = locked_at os k" for k
    by (auto simp: locked_at_def is_lock_error_def split: option.splits exn.splits)
  then show ?thesis by (simp add: all_locked_def list_all_iff)
qed

lemma delays: "map (\<lambda>k. RETRY_BASE_DELAY * 2 ^ k) [0..<RETRY_ATTEMPTS] = [1/10, 1/5, 2/5, 4/5, 8/5]"
  by (simp add: retry_range RETRY_BASE_DELAY_def)

lemma lock_steps_Cons:
  "lock_steps s d (k # ks) = [Copy2 s d, Sleep (RETRY_BASE_DELAY * 2 ^ k), GcCollect] @ lock_steps s d ks"
  by (simp add: lock_steps_def)

lemma retry_loop_locked:
  "all_locked (copy2_raises os) ks \<Longrightarrow>
   retry_loop os s d le (ks @ rest) st
     = retry_loop os s d (if ks = [] then le else copy2_raises os (last ks)) rest
         (st\<lparr>op_trace := op_trace st @ lock_steps s d ks\<rparr>)"
proof (induction ks arbitrary: le st)
  case Nil
  then show ?case by (simp add: lock_steps_def)
next
  case (Cons k ks)
  from Cons.prems obtain e where e: "copy2_raises os k = Some e" "is_lock_error e"
    and al: "all_locked (copy2_raises os) ks"
    by (auto simp: all_locked_def split: option.splits)
  let ?st = "emit GcCollect (emit (Sleep (RETRY_BASE_DELAY * 2 ^ k)) (emit (Copy2 s d) st))"
  have tr: "?st\<lparr>op_trace := op_trace ?st @ lock_steps s d ks\<rparr>
            = st\<lparr>op_trace := op_trace st @ lock_steps s d (k # ks)\<rparr>"
    by (simp add: emit_def lock_steps_Cons)
  have "retry_loop os s d le ((k # ks) @ rest) st = retry_loop os s d (Some e) (ks @ rest) ?st"
    using e by simp
  also have "\<dots> = retry_loop os s d (if ks = [] then Some e else copy2_raises os (last ks)) rest
                     (?st\<lparr>op_trace := op_trace ?st @ lock_steps s d ks\<rparr>)"
    by (rule Cons.IH[OF al])
  finally show ?case using e(1) by (simp only: tr) simp
qed

text \<open>The statements that mark an entry failed.\<close>

lemma mark_failed_change:
  "op_change (fst (mark_failed os nm msg st)) = (op_change st)\<lparr>status := ''failed''\<rparr>"
  by (simp add: mark_failed_def log_safe_def tqdm_write_def set_status_def split: option.splits)

lemma mark_failed_trace:
  "\<exists>post. op_trace (fst (mark_failed os nm msg st))
            = op_trace st @ LogChange ((op_change st)\<lparr>status := ''failed''\<rparr>) # post
          \<and> copy_calls post = 0 \<and> sleeps post = []"
  by (simp add: mark_failed_def log_safe_def tqdm_write_def set_status_def split: option.splits)

lemma mark_failed_copy_calls:
  "copy_calls (op_trace (fst (mark_failed os nm msg st))) = copy_calls (op_trace st)"
  using mark_failed_trace[of os nm msg st] by (auto simp: copy_calls_append)

lemma mark_failed_sleeps:
  "sleeps (op_trace (fst (mark_failed os nm msg st))) = sleeps (op_trace st)"
  using mark_failed_trace[of os nm msg st] by (auto simp: sleeps_append)

lemma mark_failed_quiet:
  "log_raises os (op_logs st) = None \<Longrightarrow> write_raises os (op_writes st) = None \<Longrightarrow>
   mark_failed os nm msg st
     = (\<lparr>op_change = (op_change st)\<lparr>status := ''failed''\<rparr>, op_logs = Suc (op_logs st),
         op_writes = Suc (op_writes st),
         op_trace = op_trace st @ [LogChange ((op_change st)\<lparr>status := ''failed''\<rparr>),
                                   Report (error_line (op_change st) nm msg)]\<rparr>, None)"
  by (simp add: mark_failed_def log_safe_def tqdm_write_def set_status_def)

lemma mark_failed_no_raise: "quiet_log os \<Longrightarrow> snd (mark_failed os nm msg st) = None"
  by (simp add: mark_failed_def log_safe_def tqdm_write_def quiet_log_def)

lemma log_safe_no_raise: "quiet_log os \<Longrightarrow> snd (log_safe os st) = None"
  by (simp add: log_safe_def quiet_log_def)

lemma exec_copy_quiet: "quiet_log os \<Longrightarrow> snd (exec_copy fs os c) = None"
  by (cases "exec_copy_body fs os c")
     (auto simp: exec_copy_def mark_failed_no_raise split: option.splits)

lemma body_retry:
  assumes "path_exists fs (Path_of (source c))" "makedirs_raises os = None"
    "safe_dest fs (Path_of (source c)) (Path_of (destination c)) = (actual, st)" "st \<noteq> ''skip''"
  shows "exec_copy_body fs os c =
     (case retry_loop os (str_of (Path_of (source c))) (str_of actual) None [0..<RETRY_ATTEMPTS]
             (ready c actual st) of
        (st1, Done) \<Rightarrow> (st1, None)
      | (st1, Raised e) \<Rightarrow> (st1, Some e)
      | (st1, Exhausted last_err) \<Rightarrow>
          mark_failed os (path_name (Path_of (source c)))
            (case last_err of None \<Rightarrow> ''None'' | Some e \<Rightarrow> exn_str e) st1)"
proof -
  have "emit (Makedirs (str_of (path_parent (Path_of (destination c)))))
          (start (if st = ''renamed'' then c\<lparr>destination := str_of actual\<rparr> else c))
        = ready c actual st"
    by (simp add: emit_def start_def ready_def)
  then show ?thesis using assms by (simp add: exec_copy_body_def Let_def)
qed

lemma body_exhausted:
  assumes "path_exists fs (Path_of (source c))" "makedirs_raises os = None"
    "safe_dest fs (Path_of (source c)) (Path_of (destination c)) = (actual, st)" "st \<noteq> ''skip''"
    and al: "all_locked (copy2_raises os) [0..<RETRY_ATTEMPTS]"
  shows "exec_copy_body fs os c =
     mark_failed os (path_name (Path_of (source c)))
       (case copy2_raises os 4 of None \<Rightarrow> ''None'' | Some e \<Rightarrow> exn_str e)
       ((ready c actual st)\<lparr>op_trace := op_trace (ready c actual st)
            @ lock_steps (str_of (Path_of (source c))) (str_of actual) [0..<RETRY_ATTEMPTS]\<rparr>)"
proof -
  have l: "last [0..<RETRY_ATTEMPTS] = 4" "[0..<RETRY_ATTEMPTS] \<noteq> []"
    by (simp_all add: retry_range)
  from retry_loop_locked[OF al, of "str_of (Path_of (source c))" "str_of actual" None "[]" "ready c actual st"]
  have "retry_loop os (str_of (Path_of (source c))) (str_of actual) None [0..<RETRY_ATTEMPTS]
          (ready c actual st)
        = ((ready c actual st)\<lparr>op_trace := op_trace (ready c actual st)
              @ lock_steps (str_of (Path_of (source c))) (str_of actual) [0..<RETRY_ATTEMPTS]\<rparr>,
           Exhausted (copy2_raises os 4))"
    using l by simp
  then show ?thesis by (simp add: body_retry[OF assms(1-4)])
qed

lemma body_done:
  assumes "path_exists fs (Path_of (source c))" "makedirs_raises os = None"
    "safe_dest fs (Path_of (source c)) (Path_of (destination c)) = (actual, st)" "st \<noteq> ''skip''"
    and n: "n < 5" and al: "all_locked (copy2_raises os) [0..<n]"
    and ok: "copy2_raises os n = None" and lg: "log_raises os 0 = None"
  shows "exec_copy_body fs os c =
     (\<lparr>op_change = (op_change (ready c actual st))\<lparr>status := ''done''\<rparr>, op_logs = 1, op_writes = 0,
       op_trace = op_trace (ready c actual st)
          @ lock_steps (str_of (Path_of (source c))) (str_of actual) [0..<n]
          @ [Copy2 (str_of (Path_of (source c))) (str_of actual),
             LogChange ((op_change (ready c actual st))\<lparr>status := ''done''\<rparr>)]\<rparr>, None)"
proof -
  from retry_loop_locked[OF al, of "str_of (Path_of (source c))" "str_of actual" None
      "n # [Suc n..<5]" "ready c actual st"]
  have "retry_loop os (str_of (Path_of (source c))) (str_of actual) None [0..<RETRY_ATTEMPTS]
          (ready c actual st)
        = (\<lparr>op_change = (op_change (ready c actual st))\<lparr>status := ''done''\<rparr>, op_logs = 1, op_writes = 0,
       op_trace = op_trace (ready c actual st)
          @ lock_steps (str_of (Path_of (source c))) (str_of actual) [0..<n]
          @ [Copy2 (str_of (Path_of (source c))) (str_of actual),
             LogChange ((op_change (ready c actual st))\<lparr>status := ''done''\<rparr>)]\<rparr>, Done)"
    using ok lg
    by (simp add: retry_range_split[OF n] log_safe_def set_status_def emit_def ready_def)
  then show ?thesis by (simp add: body_retry[OF assms(1-4)])
qed

lemma body_raised:
  assumes "path_exists fs (Path_of (source c))" "makedirs_raises os = None"
    "safe_dest fs (Path_of (source c)) (Path_of (destination c)) = (actual, st)" "st \<noteq> ''skip''"
    and n: "n < 5" and al: "all_locked (copy2_raises os) [0..<n]"
    and ex: "copy2_raises os n = Some e" and nl: "\<not> is_lock_error e"
  shows "exec_copy_body fs os c =
     ((ready c actual st)\<lparr>op_trace := op_trace (ready c actual st)
          @ lock_steps (str_of (Path_of (source c))) (str_of actual) [0..<n]
          @ [Copy2 (str_of (Path_of (source c))) (str_of actual)]\<rparr>, Some e)"
proof -
  from retry_loop_locked[OF al, of "str_of (Path_of (source c))" "str_of actual" None
      "n # [Suc n..<5]" "ready c actual st"]
  have "retry_loop os (str_of (Path_of (source c))) (str_of actual) None [0..<RETRY_ATTEMPTS]
          (ready c actual st)
        = ((ready c actual st)\<lparr>op_trace := op_trace (ready c actual st)
          @ lock_steps (str_of (Path_of (source c))) (str_of actual) [0..<n]
          @ [Copy2 (str_of (Path_of (source c))) (str_of actual)]\<rparr>, Raised e)"
    using ex nl by (simp add: retry_range_split[OF n] emit_def)
  then show ?thesis by (simp add: body_retry[OF assms(1-4)])
qed

lemma run_results_length: "length (run_results env i cs) = length cs"
  by (induction cs arbitrary: i) auto

lemma run_results_nth:
  "j < length cs \<Longrightarrow> run_results env i cs ! j = entry_result env (i + j) (cs ! j)"
proof (induction cs arbitrary: i j)
  case Nil
  then show ?case by simp
next
  case (Cons c cs)
  then show ?case by (cases j) auto
qed

lemma run_results_append:
  "run_results env i (xs @ ys) = run_results env i xs @ run_results env (i + length xs) ys"
  by (induction xs arbitrary: i) auto

lemma zip_upt_Cons:
  "zip [i..<i + length (c # cs)] (c # cs) = (i, c) # zip [Suc i..<Suc i + length cs] cs"
proof -
  have "[i..<i + length (c # cs)] = i # [Suc i..<Suc i + length cs]"
    by (subst upt_rec) simp
  then show ?thesis by (simp del: upt_Suc)
qed

lemma batch_results:
  "list_all (\<lambda>x. action x = ''copy_file'') xs \<Longrightarrow>
   map (\<lambda>r. op_change (fst r))
     (map (\<lambda>(j, b). exec_copy (fst (env j)) (snd (env j)) b) (zip [i..<i + length xs] xs))
   = run_results env i xs"
proof (induction xs arbitrary: i)
  case Nil
  then show ?case by simp
next
  case (Cons c cs)
  then have c: "action c = ''copy_file''" and cs: "list_all (\<lambda>x. action x = ''copy_file'') cs"
    by simp_all
  show ?case
    unfolding zip_upt_Cons using Cons.IH[OF cs, of "Suc i"] c
    by (simp add: entry_result_def)
qed

lemma batch_quiet:
  assumes q: "\<forall>j. quiet_log (snd (env j))"
  shows "r \<in> set (map (\<lambda>(j, b). exec_copy (fst (env j)) (snd (env j)) b) (zip js xs)) \<Longrightarrow> snd r = None"
  using q by (auto simp: exec_copy_quiet)

lemma map_filter_none: "(\<forall>x \<in> set xs. f x = None) \<Longrightarrow> List.map_filter f xs = []"
  by (induction xs) (auto simp: map_filter_simps)

lemma batch_no_raise:
  assumes q: "\<forall>j. quiet_log (snd (env j))" and p: "set (completed [i..<i + length xs]) = set [i..<i + length xs]"
  shows "List.map_filter
           (\<lambda>j. snd (map (\<lambda>(j, b). exec_copy (fst (env j)) (snd (env j)) b) (zip [i..<i + length xs] xs) ! (j - i)))
           (completed [i..<i + length xs]) = []"
proof (rule map_filter_none, intro ballI)
  let ?rs = "map (\<lambda>(j, b). exec_copy (fst (env j)) (snd (env j)) b) (zip [i..<i + length xs] xs)"
  fix j assume "j \<in> set (completed [i..<i + length xs])"
  then have "j - i < length xs" using p by auto
  then have "j - i < length ?rs" by simp
  then have "?rs ! (j - i) \<in> set ?rs" by (rule nth_mem)
  then show "snd (?rs ! (j - i)) = None" by (rule batch_quiet[OF q])
qed

lemma execute_loop_quiet:
  assumes q: "\<forall>j. quiet_log (snd (env j))" and p: "\<forall>js. set (completed js) = set js"
  shows "(\<forall>j < length cs. action (cs ! j) = ''create_folder''
            \<longrightarrow> makedirs_raises (snd (env (i + j))) = None)
         \<Longrightarrow> \<exists>tr. execute_loop w completed env i cs = (run_results env i cs, tr, None)"
proof (induction "length cs" arbitrary: cs i rule: less_induct)
  case less
  show ?case
  proof (cases cs)
    case Nil
    then show ?thesis by (simp add: execute_loop.simps)
  next
    case (Cons c cs')
    note f = less.prems
    have lg: "log_raises (snd (env i)) 0 = None" using q by (simp add: quiet_log_def)
    have tail: "\<forall>j < length cs'. action (cs' ! j) = ''create_folder''
                  \<longrightarrow> makedirs_raises (snd (env (Suc i + j))) = None"
    proof (intro allI impI)
      fix j assume "j < length cs'" "action (cs' ! j) = ''create_folder''"
      then show "makedirs_raises (snd (env (Suc i + j))) = None"
        using f[rule_format, of "Suc j"] Cons by simp
    qed
    from less.hyps[of cs' "Suc i"] tail Cons
    obtain tr1 where tr1: "execute_loop w completed env (Suc i) cs' = (run_results env (Suc i) cs', tr1, None)"
      by auto
    show ?thesis
    proof (cases "1 < w \<and> action c = ''copy_file''")
      case True
      let ?P = "\<lambda>x. action x = ''copy_file''"
      let ?batch = "c # takeWhile ?P cs'"
      let ?rest = "dropWhile ?P cs'"
      let ?rs = "map (\<lambda>(j, b). exec_copy (fst (env j)) (snd (env j)) b) (zip [i..<i + length ?batch] ?batch)"
      have split: "cs = ?batch @ ?rest" using Cons by simp
      have allc: "list_all ?P ?batch" using True by (simp add: list_all_iff) (metis set_takeWhileD)
      have nr: "List.map_filter (\<lambda>j. snd (?rs ! (j - i))) (completed [i..<i + length ?batch]) = []"
        by (rule batch_no_raise[OF q]) (simp add: p)
      have rest: "\<forall>j < length ?rest. action (?rest ! j) = ''create_folder''
                  \<longrightarrow> makedirs_raises (snd (env (i + length ?batch + j))) = None"
      proof (intro allI impI)
        fix j assume j: "j < length ?rest" "action (?rest ! j) = ''create_folder''"
        have "cs ! (length ?batch + j) = ?rest ! j" by (subst split) (simp only: nth_append_length_plus)
        moreover have "length cs = length ?batch + length ?rest" by (metis split length_append)
        then have "length ?batch + j < length cs" using j(1) by simp
        ultimately show "makedirs_raises (snd (env (i + length ?batch + j))) = None"
          using f[rule_format, of "length ?batch + j"] j(2) by (simp add: add.assoc)
      qed
      have "length ?rest < length cs" using Cons by (simp add: less_Suc_eq_le length_dropWhile_le)
      from less.hyps[OF this rest]
      obtain tr2 where tr2: "execute_loop w completed env (i + length ?batch) ?rest
                              = (run_results env (i + length ?batch) ?rest, tr2, None)"
        by blast
      have res: "map (\<lambda>r. op_change (fst r)) ?rs @ run_results env (i + length ?batch) ?rest
                 = run_results env i cs"
        by (subst split) (simp only: batch_results[OF allc] run_results_append)
      have "execute_loop w completed env i (c # cs')
              = (map (\<lambda>r. op_change (fst r)) ?rs @ run_results env (i + length ?batch) ?rest,
                 map (\<lambda>r. op_trace (fst r)) ?rs @ tr2, None)"
        using True by (subst execute_loop.simps) (simp only: Let_def nr tr2 if_True list.case prod.case, simp)
      then show ?thesis using Cons res by simp
    next
      case False
      have mk: "action c = ''create_folder'' \<Longrightarrow> makedirs_raises (snd (env i)) = None"
        using f[rule_format, of 0] Cons by simp
      have ex: "snd (exec_copy (fst (env i)) (snd (env i)) c) = None"
        using q by (simp add: exec_copy_quiet)
      have "\<exists>tr. execute_loop w completed env i (c # cs') = (run_results env i (c # cs'), tr, None)"
        using False tr1 lg mk ex
        by (subst execute_loop.simps)
           (auto simp: entry_result_def split: prod.splits option.splits)
      then show ?thesis using Cons by simp
    qed
  qed
qed

subsection \<open>Claims about the collision-safe destination\<close>

lemma exec_copy_skip_body:
  assumes "path_exists fs (Path_of (source c))" "makedirs_raises os = None"
    "snd (safe_dest fs (Path_of (source c)) (Path_of (destination c))) = ''skip''"
  shows "exec_copy_body fs os c =
     (\<lparr>op_change = c\<lparr>status := ''skipped''\<rparr>, op_logs = 1, op_writes = 0,
       op_trace = [Makedirs (str_of (path_parent (Path_of (destination c)))),
                   LogChange (c\<lparr>status := ''skipped''\<rparr>)]\<rparr>, log_raises os 0)"
  using assms
  by (cases "safe_dest fs (Path_of (source c)) (Path_of (destination c))")
     (simp add: exec_copy_body_def Let_def log_safe_def set_status_def emit_def start_def)

lemma exec_copy_skip:
  assumes "path_exists fs (Path_of (source c))" "makedirs_raises os = None"
    "snd (safe_dest fs (Path_of (source c)) (Path_of (destination c))) = ''skip''"
    "log_raises os 0 = None"
  shows "exec_copy fs os c =
     (\<lparr>op_change = c\<lparr>status := ''skipped''\<rparr>, op_logs = 1, op_writes = 0,
       op_trace = [Makedirs (str_of (path_parent (Path_of (destination c)))),
                   LogChange (c\<lparr>status := ''skipped''\<rparr>)]\<rparr>, None)"
  using assms(4) by (simp add: exec_copy_def exec_copy_skip_body[OF assms(1-3)])

lemma exec_copy_skip_calls:
  assumes "path_exists fs (Path_of (source c))" "makedirs_raises os = None"
    "snd (safe_dest fs (Path_of (source c)) (Path_of (destination c))) = ''skip''"
  shows "copy_calls (op_trace (fst (exec_copy fs os c))) = 0"
  by (cases "log_raises os 0")
     (simp_all add: exec_copy_def exec_copy_skip_body[OF assms] mark_failed_copy_calls)

lemma odd_stems:
  "path_stem (Path_of ''out/_5.pdf'') = ''_5''"
  "str_of (candidate (Path_of ''out/_5.pdf'') 1) = ''out/_5_1.pdf''"
  "path_stem (Path_of (''out/a_5'' @ [newline] @ ''.pdf'')) = ''a_5'' @ [newline]"
  "str_of (candidate (Path_of (''out/a_5'' @ [newline] @ ''.pdf'')) 1) = ''out/a_1.pdf''"
  by code_simp+

text \<open>
  C8, as stated, fails in three places. Where the first suffixed candidate that is absent
  is number 10000 (the destination exists and differs from the source, the candidates 1 to
  9999 exist and differ, \<^verbatim>\<open>out/doc_10000.pdf\<close> is absent), \<^verbatim>\<open>_safe_dest\<close> answers with the
  destination itself, not with that candidate. The stem \<^verbatim>\<open>_5\<close> ends in \<^verbatim>\<open>_N\<close> and is not
  stripped: its first candidate is \<^verbatim>\<open>_5_1.pdf\<close>. A stem \<^verbatim>\<open>a_5\<close> followed by a line break
  does not end in \<^verbatim>\<open>_N\<close> and is stripped, line break included: its first candidate is
  \<^verbatim>\<open>a_1.pdf\<close>.
\<close>

theorem C8_first_candidate_counterexample:
  "path_exists crowded_fs (Path_of ''out/doc.pdf'')
   \<and> \<not> files_identical crowded_fs (Path_of ''in/doc.pdf'') (Path_of ''out/doc.pdf'')
   \<and> str_of (candidate (Path_of ''out/doc.pdf'') 10000) = ''out/doc_10000.pdf''
   \<and> \<not> path_exists crowded_fs (candidate (Path_of ''out/doc.pdf'') 10000)
   \<and> safe_dest crowded_fs (Path_of ''in/doc.pdf'') (Path_of ''out/doc.pdf'')
        = (Path_of ''out/doc.pdf'', ''ok'')
   \<and> path_stem (Path_of ''out/_5.pdf'') = ''_5''
   \<and> str_of (candidate (Path_of ''out/_5.pdf'') 1) = ''out/_5_1.pdf''
   \<and> path_stem (Path_of (''out/a_5'' @ [newline] @ ''.pdf'')) = ''a_5'' @ [newline]
   \<and> str_of (candidate (Path_of (''out/a_5'' @ [newline] @ ''.pdf'')) 1) = ''out/a_1.pdf''"
proof -
  have "path_exists crowded_fs (Path_of ''out/doc.pdf'')
   \<and> \<not> files_identical crowded_fs (Path_of ''in/doc.pdf'') (Path_of ''out/doc.pdf'')
   \<and> str_of (candidate (Path_of ''out/doc.pdf'') 10000) = ''out/doc_10000.pdf''
   \<and> \<not> path_exists crowded_fs (candidate (Path_of ''out/doc.pdf'') 10000)
   \<and> safe_dest crowded_fs (Path_of ''in/doc.pdf'') (Path_of ''out/doc.pdf'')
        = (Path_of ''out/doc.pdf'', ''ok'')"
    by (simp add: crowded_dst crowded_safe_dest doc_candidate_str show_nat_10000)
       (simp add: path_exists_def doc_candidate_str show_nat_10000 crowded_fs_def)
  then show ?thesis using odd_stems by (simp only: simp_thms)
qed

text \<open>
  C10: there is a file system in which the source exists, the destination exists and
  differs from it, each of the candidates 1 to 9999 exists and differs from it, and
  \<^verbatim>\<open>_safe_dest\<close> returns the destination itself with status \<^verbatim>\<open>ok\<close>; the executor then
  copies the source onto the existing destination.
\<close>

theorem C10_safe_dest_overwrites:
  "\<exists>fs c os.
      path_exists fs (Path_of (source c))
      \<and> path_exists fs (Path_of (destination c))
      \<and> \<not> files_identical fs (Path_of (source c)) (Path_of (destination c))
      \<and> list_all (\<lambda>i. path_exists fs (candidate (Path_of (destination c)) i)
                    \<and> \<not> files_identical fs (Path_of (source c)) (candidate (Path_of (destination c)) i))
           [1..<10000]
      \<and> safe_dest fs (Path_of (source c)) (Path_of (destination c)) = (Path_of (destination c), ''ok'')
      \<and> exec_copy fs os c =
          (\<lparr>op_change = c\<lparr>status := ''done''\<rparr>, op_logs = 1, op_writes = 0,
            op_trace = [Makedirs (str_of (path_parent (Path_of (destination c)))),
                        Copy2 (source c) (destination c),
                        LogChange (c\<lparr>status := ''done''\<rparr>)]\<rparr>, None)"
proof -
  define c where "c = mk_change ''copy_file'' ''in/doc.pdf'' ''out/doc.pdf'' [] [] []"
  have sc: "source c = ''in/doc.pdf''" "destination c = ''out/doc.pdf''"
    by (simp_all add: c_def)
  have al: "all_locked (copy2_raises willing) [0..<0]" by (simp add: all_locked_def)
  have b: "exec_copy_body crowded_fs willing c =
     (\<lparr>op_change = (op_change (ready c (Path_of ''out/doc.pdf'') ''ok''))\<lparr>status := ''done''\<rparr>,
       op_logs = 1, op_writes = 0,
       op_trace = op_trace (ready c (Path_of ''out/doc.pdf'') ''ok'')
          @ lock_steps (str_of (Path_of (source c))) (str_of (Path_of ''out/doc.pdf'')) [0..<0]
          @ [Copy2 (str_of (Path_of (source c))) (str_of (Path_of ''out/doc.pdf'')),
             LogChange ((op_change (ready c (Path_of ''out/doc.pdf'') ''ok''))\<lparr>status := ''done''\<rparr>)]\<rparr>, None)"
    by (rule body_done[OF _ _ _ _ _ al])
       (simp_all add: sc crowded_dst crowded_safe_dest willing_def no_raise_def)
  have "exec_copy crowded_fs willing c =
          (\<lparr>op_change = c\<lparr>status := ''done''\<rparr>, op_logs = 1, op_writes = 0,
            op_trace = [Makedirs (str_of (path_parent (Path_of (destination c)))),
                        Copy2 (source c) (destination c),
                        LogChange (c\<lparr>status := ''done''\<rparr>)]\<rparr>, None)"
    by (simp add: exec_copy_def b ready_def lock_steps_def sc crowded_src)
  then show ?thesis
    using crowded_dst crowded_safe_dest crowded_candidates
    by (intro exI[of _ crowded_fs] exI[of _ c] exI[of _ willing]) (simp add: sc)
qed

text \<open>
  C8, amended: an absent destination is used as it is (\<^verbatim>\<open>ok\<close>); a destination that exists
  and is byte-identical to the source (same size, then same MD5 digest) is a \<^verbatim>\<open>skip\<close>, and
  the executor then makes no copy; otherwise, among the candidates \<^verbatim>\<open>stem_1.ext\<close> to
  \<^verbatim>\<open>stem_9999.ext\<close>, the first one that is absent or identical to the source is chosen, with
  \<^verbatim>\<open>skip\<close> when it is identical and \<^verbatim>\<open>renamed\<close> when it is absent. The stem of the candidates
  is the stem of the destination without its trailing \<^verbatim>\<open>_N\<close> when that stem is a non-empty
  prefix without line break, an underscore and digits up to its end or up to one final line
  break; any other stem is used whole.
\<close>

theorem C8_safe_dest:
  "(\<not> path_exists fs dst \<longrightarrow> safe_dest fs src dst = (dst, ''ok''))
   \<and> (path_exists fs dst \<and> files_identical fs src dst \<longrightarrow> safe_dest fs src dst = (dst, ''skip''))
   \<and> (path_exists fs dst \<and> \<not> files_identical fs src dst \<and> 1 \<le> k \<and> k < 10000
        \<and> (\<forall>i. 1 \<le> i \<and> i < k \<longrightarrow>
              path_exists fs (candidate dst i) \<and> \<not> files_identical fs src (candidate dst i))
        \<and> (\<not> path_exists fs (candidate dst k) \<or> files_identical fs src (candidate dst k))
       \<longrightarrow> safe_dest fs src dst =
             (candidate dst k, if \<not> path_exists fs (candidate dst k) then ''renamed'' else ''skip''))
   \<and> (path_stem dst = p @ ''_'' @ ds @ fin \<and> p \<noteq> [] \<and> newline \<notin> set p
        \<and> ds \<noteq> [] \<and> list_all (\<lambda>c. c \<in> set digits) ds \<and> (fin = [] \<or> fin = [newline])
       \<longrightarrow> candidate dst j = joinpath (path_parent dst) (p @ ''_'' @ show_nat j @ path_suffix dst))
   \<and> (\<not> (\<exists>p ds fin. path_stem dst = p @ ''_'' @ ds @ fin \<and> p \<noteq> [] \<and> newline \<notin> set p
              \<and> ds \<noteq> [] \<and> list_all (\<lambda>c. c \<in> set digits) ds \<and> (fin = [] \<or> fin = [newline]))
       \<longrightarrow> candidate dst j
             = joinpath (path_parent dst) (path_stem dst @ ''_'' @ show_nat j @ path_suffix dst))
   \<and> (fs (str_of src) = Some (Regular m d) \<and> fs (str_of dst) = Some (Regular n e)
       \<longrightarrow> files_identical fs src dst = (m = n \<and> d = e))
   \<and> (path_exists fs (Path_of (source c)) \<and> makedirs_raises os = None
        \<and> snd (safe_dest fs (Path_of (source c)) (Path_of (destination c))) = ''skip''
       \<longrightarrow> copy_calls (op_trace (fst (exec_copy fs os c))) = 0
           \<and> (log_raises os 0 = None \<longrightarrow>
                exec_copy fs os c =
                  (\<lparr>op_change = c\<lparr>status := ''skipped''\<rparr>, op_logs = 1, op_writes = 0,
                    op_trace = [Makedirs (str_of (path_parent (Path_of (destination c)))),
                                LogChange (c\<lparr>status := ''skipped''\<rparr>)]\<rparr>, None)))"
proof (intro conjI impI)
  assume "\<not> path_exists fs dst"
  then show "safe_dest fs src dst = (dst, ''ok'')" by (simp add: safe_dest_def)
next
  assume "path_exists fs dst \<and> files_identical fs src dst"
  then show "safe_dest fs src dst = (dst, ''skip'')" by (simp add: safe_dest_def)
next
  assume h: "path_exists fs dst \<and> \<not> files_identical fs src dst \<and> 1 \<le> k \<and> k < 10000
        \<and> (\<forall>i. 1 \<le> i \<and> i < k \<longrightarrow>
              path_exists fs (candidate dst i) \<and> \<not> files_identical fs src (candidate dst i))
        \<and> (\<not> path_exists fs (candidate dst k) \<or> files_identical fs src (candidate dst k))"
  then have pre: "list_all (\<lambda>i. path_exists fs (candidate dst i)
                      \<and> \<not> files_identical fs src (candidate dst i)) [1..<k]"
    by (simp add: list_all_iff)
  from h have split: "[1..<10000] = [1..<k] @ k # [Suc k..<10000]"
    by (intro range_split) auto
  from h have q: "\<not> path_exists fs (candidate dst k) \<or> files_identical fs src (candidate dst k)"
    by blast
  have "first_candidate fs src dst [1..<10000]
          = Some (candidate dst k, if \<not> path_exists fs (candidate dst k) then ''renamed'' else ''skip'')"
    unfolding split by (rule first_candidate_first[OF pre q])
  with h show "safe_dest fs src dst =
             (candidate dst k, if \<not> path_exists fs (candidate dst k) then ''renamed'' else ''skip'')"
    by (simp add: safe_dest_def)
next
  assume h: "path_stem dst = p @ ''_'' @ ds @ fin \<and> p \<noteq> [] \<and> newline \<notin> set p
        \<and> ds \<noteq> [] \<and> list_all (\<lambda>c. c \<in> set digits) ds \<and> (fin = [] \<or> fin = [newline])"
  then have "base_stem (p @ ''_'' @ ds @ fin) = p" by (intro base_stem_strip) simp_all
  then have "base_stem (path_stem dst) = p" using h by simp
  then show "candidate dst j = joinpath (path_parent dst) (p @ ''_'' @ show_nat j @ path_suffix dst)"
    by (simp add: candidate_def)
next
  assume "\<not> (\<exists>p ds fin. path_stem dst = p @ ''_'' @ ds @ fin \<and> p \<noteq> [] \<and> newline \<notin> set p
              \<and> ds \<noteq> [] \<and> list_all (\<lambda>c. c \<in> set digits) ds \<and> (fin = [] \<or> fin = [newline]))"
  then have "base_stem (path_stem dst) = path_stem dst" by (rule base_stem_keep)
  then show "candidate dst j
             = joinpath (path_parent dst) (path_stem dst @ ''_'' @ show_nat j @ path_suffix dst)"
    by (simp add: candidate_def)
next
  assume "fs (str_of src) = Some (Regular m d) \<and> fs (str_of dst) = Some (Regular n e)"
  then show "files_identical fs src dst = (m = n \<and> d = e)"
    by (simp add: files_identical_regular)
next
  assume h: "path_exists fs (Path_of (source c)) \<and> makedirs_raises os = None
        \<and> snd (safe_dest fs (Path_of (source c)) (Path_of (destination c))) = ''skip''"
  then show "copy_calls (op_trace (fst (exec_copy fs os c))) = 0"
    by (intro exec_copy_skip_calls) simp_all
  assume "log_raises os 0 = None"
  with h show "exec_copy fs os c =
                  (\<lparr>op_change = c\<lparr>status := ''skipped''\<rparr>, op_logs = 1, op_writes = 0,
                    op_trace = [Makedirs (str_of (path_parent (Path_of (destination c)))),
                                LogChange (c\<lparr>status := ''skipped''\<rparr>)]\<rparr>, None)"
    by (intro exec_copy_skip) simp_all
qed

lemma demo_paths:
  "str_of (Path_of ''in/a.pdf'') = ''in/a.pdf''"
  "str_of (Path_of ''out/a.pdf'') = ''out/a.pdf''"
  "str_of (Path_of ''out/b.pdf'') = ''out/b.pdf''"
  "str_of (Path_of ''out/c.pdf'') = ''out/c.pdf''"
  "str_of (Path_of ''out/d.pdf'') = ''out/d.pdf''"
  "str_of (Path_of ''out/r_7.pdf'') = ''out/r_7.pdf''"
  "str_of (candidate (Path_of ''out/a.pdf'') 1) = ''out/a_1.pdf''"
  "str_of (candidate (Path_of ''out/a.pdf'') (Suc 0)) = ''out/a_1.pdf''"
  "str_of (candidate (Path_of ''out/a.pdf'') 2) = ''out/a_2.pdf''"
  "str_of (candidate (Path_of ''out/r_7.pdf'') 1) = ''out/r_1.pdf''"
  "str_of (candidate (Path_of ''out/r_7.pdf'') (Suc 0)) = ''out/r_1.pdf''"
  by code_simp+

lemma demo_stems:
  "path_stem (Path_of ''out/r_7.pdf'') = ''r'' @ ''_'' @ ''7'' @ []"
  "path_stem (Path_of ''out/a.pdf'') = ''a''"
  "str_of (path_parent (Path_of ''out/b.pdf'')) = ''out''"
  by code_simp+

lemma plain_stem:
  "\<not> (\<exists>p ds fin. ''a'' = p @ ''_'' @ ds @ fin \<and> p \<noteq> [] \<and> newline \<notin> set p
          \<and> ds \<noteq> [] \<and> list_all (\<lambda>c. c \<in> set digits) ds \<and> (fin = [] \<or> fin = [newline]))"
proof
  assume "\<exists>p ds fin. ''a'' = p @ ''_'' @ ds @ fin \<and> p \<noteq> [] \<and> newline \<notin> set p
          \<and> ds \<noteq> [] \<and> list_all (\<lambda>c. c \<in> set digits) ds \<and> (fin = [] \<or> fin = [newline])"
  then obtain p ds fin where e: "''a'' = p @ ''_'' @ ds @ fin" and p: "p \<noteq> []" by blast
  from e have "length ''a'' = length (p @ ''_'' @ ds @ fin)" by (rule arg_cong)
  then have "length p = 0" by simp
  with p show False by simp
qed

theorem C8_safe_dest_witness:
  "\<not> path_exists demo_fs (Path_of ''out/c.pdf'')
   \<and> safe_dest demo_fs (Path_of ''in/a.pdf'') (Path_of ''out/c.pdf'') = (Path_of ''out/c.pdf'', ''ok'')
   \<and> path_exists demo_fs (Path_of ''out/b.pdf'')
   \<and> files_identical demo_fs (Path_of ''in/a.pdf'') (Path_of ''out/b.pdf'')
   \<and> safe_dest demo_fs (Path_of ''in/a.pdf'') (Path_of ''out/b.pdf'') = (Path_of ''out/b.pdf'', ''skip'')
   \<and> path_exists demo_fs (Path_of ''out/a.pdf'')
   \<and> \<not> files_identical demo_fs (Path_of ''in/a.pdf'') (Path_of ''out/a.pdf'')
   \<and> path_exists demo_fs (candidate (Path_of ''out/a.pdf'') 1)
   \<and> \<not> files_identical demo_fs (Path_of ''in/a.pdf'') (candidate (Path_of ''out/a.pdf'') 1)
   \<and> \<not> path_exists demo_fs (candidate (Path_of ''out/a.pdf'') 2)
   \<and> safe_dest demo_fs (Path_of ''in/a.pdf'') (Path_of ''out/a.pdf'')
        = (candidate (Path_of ''out/a.pdf'') 2, ''renamed'')
   \<and> str_of (candidate (Path_of ''out/a.pdf'') 2) = ''out/a_2.pdf''
   \<and> path_stem (Path_of ''out/r_7.pdf'') = ''r'' @ ''_'' @ ''7'' @ []
   \<and> candidate (Path_of ''out/r_7.pdf'') 1
        = joinpath (path_parent (Path_of ''out/r_7.pdf''))
            (''r'' @ ''_'' @ show_nat 1 @ path_suffix (Path_of ''out/r_7.pdf''))
   \<and> str_of (candidate (Path_of ''out/r_7.pdf'') 1) = ''out/r_1.pdf''
   \<and> safe_dest demo_fs (Path_of ''in/a.pdf'') (Path_of ''out/r_7.pdf'')
        = (candidate (Path_of ''out/r_7.pdf'') 1, ''renamed'')
   \<and> \<not> (\<exists>p ds fin. path_stem (Path_of ''out/a.pdf'') = p @ ''_'' @ ds @ fin \<and> p \<noteq> []
            \<and> newline \<notin> set p \<and> ds \<noteq> [] \<and> list_all (\<lambda>c. c \<in> set digits) ds
            \<and> (fin = [] \<or> fin = [newline]))
   \<and> candidate (Path_of ''out/a.pdf'') 2
        = joinpath (path_parent (Path_of ''out/a.pdf''))
            (path_stem (Path_of ''out/a.pdf'') @ ''_'' @ show_nat 2 @ path_suffix (Path_of ''out/a.pdf''))
   \<and> copy_calls (op_trace (fst (exec_copy demo_fs willing demo_skip))) = 0
   \<and> exec_copy demo_fs willing demo_skip
       = (\<lparr>op_change = demo_skip\<lparr>status := ''skipped''\<rparr>, op_logs = 1, op_writes = 0,
           op_trace = [Makedirs (str_of (path_parent (Path_of (destination demo_skip)))),
                       LogChange (demo_skip\<lparr>status := ''skipped''\<rparr>)]\<rparr>, None)"
proof -
  let ?src = "Path_of ''in/a.pdf''"
  have a: "\<not> path_exists demo_fs (Path_of ''out/c.pdf'')"
    by (simp add: path_exists_def demo_paths demo_fs_def)
  have b: "path_exists demo_fs (Path_of ''out/b.pdf'')"
          "files_identical demo_fs ?src (Path_of ''out/b.pdf'')"
    by (simp_all add: path_exists_def files_identical_def st_size_def file_hash_def demo_paths demo_fs_def)
  have c: "path_exists demo_fs (Path_of ''out/a.pdf'')"
          "\<not> files_identical demo_fs ?src (Path_of ''out/a.pdf'')"
          "path_exists demo_fs (candidate (Path_of ''out/a.pdf'') 1)"
          "\<not> files_identical demo_fs ?src (candidate (Path_of ''out/a.pdf'') 1)"
          "\<not> path_exists demo_fs (candidate (Path_of ''out/a.pdf'') 2)"
    by (simp_all add: path_exists_def files_identical_def st_size_def file_hash_def demo_paths demo_fs_def)
  have r: "path_exists demo_fs (Path_of ''out/r_7.pdf'')"
          "\<not> files_identical demo_fs ?src (Path_of ''out/r_7.pdf'')"
          "\<not> path_exists demo_fs (candidate (Path_of ''out/r_7.pdf'') 1)"
    by (simp_all add: path_exists_def files_identical_def st_size_def file_hash_def demo_paths demo_fs_def)
  have pre: "\<forall>i. 1 \<le> i \<and> i < 2 \<longrightarrow>
              path_exists demo_fs (candidate (Path_of ''out/a.pdf'') i)
              \<and> \<not> files_identical demo_fs ?src (candidate (Path_of ''out/a.pdf'') i)"
  proof (intro allI impI)
    fix i :: nat
    assume "1 \<le> i \<and> i < 2"
    then have "i = 1" by arith
    then show "path_exists demo_fs (candidate (Path_of ''out/a.pdf'') i)
              \<and> \<not> files_identical demo_fs ?src (candidate (Path_of ''out/a.pdf'') i)"
      using c by simp
  qed
  have pre1: "\<forall>i. 1 \<le> i \<and> i < (1::nat) \<longrightarrow>
              path_exists demo_fs (candidate (Path_of ''out/r_7.pdf'') i)
              \<and> \<not> files_identical demo_fs ?src (candidate (Path_of ''out/r_7.pdf'') i)"
    by simp
  have srcx: "path_exists demo_fs (Path_of (source demo_skip))"
    by (simp add: path_exists_def demo_paths demo_fs_def demo_skip_def)
  have wl: "makedirs_raises willing = None" "log_raises willing 0 = None"
    by (simp_all add: willing_def no_raise_def)
  have ps: "\<not> (\<exists>p ds fin. path_stem (Path_of ''out/a.pdf'') = p @ ''_'' @ ds @ fin \<and> p \<noteq> []
            \<and> newline \<notin> set p \<and> ds \<noteq> [] \<and> list_all (\<lambda>c. c \<in> set digits) ds
            \<and> (fin = [] \<or> fin = [newline]))"
    unfolding demo_stems by (rule plain_stem)
  have d7: "''7'' \<noteq> [] \<and> list_all (\<lambda>c. c \<in> set digits) ''7'' \<and> ''r'' \<noteq> [] \<and> newline \<notin> set ''r''"
    by (simp add: digits_def newline_def)
  note t1 = C8_safe_dest[where fs = demo_fs and src = ?src and dst = "Path_of ''out/c.pdf''"]
  note t2 = C8_safe_dest[where fs = demo_fs and src = ?src and dst = "Path_of ''out/b.pdf''"
      and c = demo_skip and os = willing]
  note t3 = C8_safe_dest[where fs = demo_fs and src = ?src and dst = "Path_of ''out/a.pdf''" and k = 2
      and j = 2]
  note t4 = C8_safe_dest[where fs = demo_fs and src = ?src and dst = "Path_of ''out/r_7.pdf''" and k = 1
      and j = 1 and p = "''r''" and ds = "''7''" and fin = "[]"]
  have r1: "safe_dest demo_fs ?src (Path_of ''out/c.pdf'') = (Path_of ''out/c.pdf'', ''ok'')"
    using t1 a by blast
  have r2: "safe_dest demo_fs ?src (Path_of ''out/b.pdf'') = (Path_of ''out/b.pdf'', ''skip'')"
    using t2 b by blast
  have r3: "safe_dest demo_fs ?src (Path_of ''out/a.pdf'') = (candidate (Path_of ''out/a.pdf'') 2, ''renamed'')"
    using t3 c pre by simp
  have r3b: "candidate (Path_of ''out/a.pdf'') 2
        = joinpath (path_parent (Path_of ''out/a.pdf''))
            (path_stem (Path_of ''out/a.pdf'') @ ''_'' @ show_nat 2 @ path_suffix (Path_of ''out/a.pdf''))"
    using t3 ps by blast
  have r4: "candidate (Path_of ''out/r_7.pdf'') 1
        = joinpath (path_parent (Path_of ''out/r_7.pdf''))
            (''r'' @ ''_'' @ show_nat 1 @ path_suffix (Path_of ''out/r_7.pdf''))"
    using t4 demo_stems(1) d7 by blast
  have r4b: "safe_dest demo_fs ?src (Path_of ''out/r_7.pdf'')
        = (candidate (Path_of ''out/r_7.pdf'') 1, ''renamed'')"
    using t4 r pre1 by simp
  have sk: "snd (safe_dest demo_fs (Path_of (source demo_skip)) (Path_of (destination demo_skip))) = ''skip''"
    using r2 by (simp add: demo_skip_def)
  have r5: "copy_calls (op_trace (fst (exec_copy demo_fs willing demo_skip))) = 0"
    using t2 srcx wl(1) sk by blast
  have r6: "exec_copy demo_fs willing demo_skip
       = (\<lparr>op_change = demo_skip\<lparr>status := ''skipped''\<rparr>, op_logs = 1, op_writes = 0,
           op_trace = [Makedirs (str_of (path_parent (Path_of (destination demo_skip)))),
                       LogChange (demo_skip\<lparr>status := ''skipped''\<rparr>)]\<rparr>, None)"
    using t2 srcx wl sk by blast
  show ?thesis
    using a r1 b r2 c r3 demo_paths(9) demo_stems(1) r4 demo_paths(10) r4b ps r3b r5 r6
    by (intro conjI) assumption+
qed

subsection \<open>Claims about the executor\<close>

lemma disk_full_not_lock: "\<not> is_lock_error disk_full"
  by code_simp

lemma full_env_run:
  "map status (changes (fst (execute False True None 1 ledger_order full_env demo_ledger)))
     = [''failed'', ''planned'', ''planned'']"
  "snd (snd (execute False True None 1 ledger_order full_env demo_ledger)) = Some disk_full"
  "map status (changes (fst (execute False True None 8 ledger_order full_env demo_ledger)))
     = [''failed'', ''planned'', ''planned'']"
  "snd (snd (execute False True None 8 ledger_order full_env demo_ledger)) = Some disk_full"
  by code_simp+

text \<open>
  C9, as stated, fails where the call that writes the log line raises: on a full output
  volume the copy of the first entry fails with an \<^verbatim>\<open>OSError\<close> that is no lock error, the
  handler marks the entry failed and calls \<^verbatim>\<open>_log_safe\<close>, whose write fails too; that
  exception leaves \<^verbatim>\<open>_exec_copy\<close> and ends the run, with one worker and with eight, and
  the two entries behind it are still planned.
\<close>

theorem C9_log_failure_counterexample:
  "copy2_raises (snd (full_env 0)) 0 = Some disk_full
   \<and> \<not> is_lock_error disk_full
   \<and> map status (changes (fst (execute False True None 1 ledger_order full_env demo_ledger)))
       = [''failed'', ''planned'', ''planned'']
   \<and> snd (snd (execute False True None 1 ledger_order full_env demo_ledger)) = Some disk_full
   \<and> map status (changes (fst (execute False True None 8 ledger_order full_env demo_ledger)))
       = [''failed'', ''planned'', ''planned'']
   \<and> snd (snd (execute False True None 8 ledger_order full_env demo_ledger)) = Some disk_full"
proof -
  have "copy2_raises (snd (full_env 0)) 0 = Some disk_full"
    by (simp add: full_env_def volume_full_def)
  then show ?thesis using disk_full_not_lock full_env_run by (intro conjI) assumption+
qed

lemma exec_copy_failed_body:
  assumes "exec_copy_body fs os c = mark_failed os nm msg st0"
  shows "status (op_change (fst (exec_copy fs os c))) = ''failed''"
    and "copy_calls (op_trace (fst (exec_copy fs os c))) = copy_calls (op_trace st0)"
    and "sleeps (op_trace (fst (exec_copy fs os c))) = sleeps (op_trace st0)"
proof -
  obtain st1 r where m: "mark_failed os nm msg st0 = (st1, r)" by (cases "mark_failed os nm msg st0")
  have s1: "status (op_change st1) = ''failed''"
    "copy_calls (op_trace st1) = copy_calls (op_trace st0)"
    "sleeps (op_trace st1) = sleeps (op_trace st0)"
    using mark_failed_change[of os nm msg st0] mark_failed_copy_calls[of os nm msg st0]
      mark_failed_sleeps[of os nm msg st0] m by simp_all
  have "status (op_change (fst (exec_copy fs os c))) = ''failed''
        \<and> copy_calls (op_trace (fst (exec_copy fs os c))) = copy_calls (op_trace st0)
        \<and> sleeps (op_trace (fst (exec_copy fs os c))) = sleeps (op_trace st0)"
  proof (cases r)
    case None
    then show ?thesis using s1 by (simp add: exec_copy_def assms m)
  next
    case (Some e)
    then have "exec_copy fs os c = mark_failed os (path_name (Path_of (source c))) (exn_str e) st1"
      by (simp add: exec_copy_def assms m)
    then show ?thesis
      using s1 by (simp add: mark_failed_change mark_failed_copy_calls mark_failed_sleeps)
  qed
  then show "status (op_change (fst (exec_copy fs os c))) = ''failed''"
    and "copy_calls (op_trace (fst (exec_copy fs os c))) = copy_calls (op_trace st0)"
    and "sleeps (op_trace (fst (exec_copy fs os c))) = sleeps (op_trace st0)"
    by simp_all
qed

lemma ready_calls:
  "copy_calls (op_trace (ready c actual st)) = 0" "sleeps (op_trace (ready c actual st)) = []"
  "op_logs (ready c actual st) = 0" "op_writes (ready c actual st) = 0"
  "action (op_change (ready c actual st)) = action c"
  by (simp_all add: ready_def)

lemma error_line_action: "action c' = action c \<Longrightarrow> error_line c' nm msg = error_line c nm msg"
  by (simp add: error_line_def)

lemma mute_log_quiet: "quiet_log (snd (env j)) \<Longrightarrow> quiet_log (snd (mute_log env j))"
  by (simp add: quiet_log_def mute_log_def)

lemma mute_log_makedirs: "makedirs_raises (snd (mute_log env j)) = makedirs_raises (snd (env j))"
  by (simp add: mute_log_def)

lemma execute_quiet:
  assumes "\<forall>j. quiet_log (snd (env j))" "\<forall>js. set (completed js) = set js"
    "\<forall>j < length (changes L). action (changes L ! j) = ''create_folder''
        \<longrightarrow> makedirs_raises (snd (env j)) = None"
    "jsonl \<longrightarrow> open_raises = None"
  shows "\<exists>L' tr. execute False jsonl open_raises workers completed env L = (L', tr, None)
           \<and> length (changes L') = length (changes L)
           \<and> (\<forall>j < length (changes L).
                 changes L' ! j = entry_result (if jsonl then env else mute_log env) j (changes L ! j))"
proof -
  let ?env = "if jsonl then env else mute_log env"
  have q: "\<forall>j. quiet_log (snd (?env j))" using assms(1) by (simp add: mute_log_quiet)
  have f: "\<forall>j < length (changes L). action (changes L ! j) = ''create_folder''
        \<longrightarrow> makedirs_raises (snd (?env (0 + j))) = None"
    using assms(3) by (simp add: mute_log_makedirs)
  from execute_loop_quiet[OF q assms(2) f, of workers]
  obtain tr where "execute_loop workers completed ?env 0 (changes L) = (run_results ?env 0 (changes L), tr, None)"
    by blast
  then have "execute False jsonl open_raises workers completed env L
               = (L\<lparr>changes := run_results ?env 0 (changes L)\<rparr>, tr, None)"
    using assms(4) by (auto simp: execute_def)
  then show ?thesis
    by (intro exI[of _ "L\<lparr>changes := run_results ?env 0 (changes L)\<rparr>"] exI[of _ tr])
       (simp add: run_results_length run_results_nth)
qed

text \<open>
  C9, amended: once the source exists, the folder is made and the destination is settled,
  a copy that fails with a sharing violation (\<^verbatim>\<open>winerror\<close> 32, or a message containing
  \<^verbatim>\<open>being used\<close>) on each attempt is tried five times, sleeping 0.1, 0.2, 0.4, 0.8 and 1.6
  seconds after the attempts, and is then marked failed; a copy that succeeds at attempt
  \<^verbatim>\<open>n\<close> after \<^verbatim>\<open>n\<close> such violations is marked done when its log line is written; any other
  exception at attempt \<^verbatim>\<open>n\<close> marks the entry failed and calls the log at once, with no
  further attempt and no sleep. In a run in which no call that writes a log line or an error
  line raises, the log file opens and no \<^verbatim>\<open>create_folder\<close> operation raises, every entry of
  the ledger gets
  the result of its own operation and the run ends without an exception, whatever the
  copies do, with one worker or with thread-pool batches in any order of completion.
\<close>

theorem C9_retry_and_isolation:
  "(path_exists fs (Path_of (source c)) \<and> makedirs_raises os = None
      \<and> safe_dest fs (Path_of (source c)) (Path_of (destination c)) = (actual, st) \<and> st \<noteq> ''skip''
    \<longrightarrow>
      ((\<forall>k < 5. locked_at os k) \<longrightarrow>
          status (op_change (fst (exec_copy fs os c))) = ''failed''
        \<and> copy_calls (op_trace (fst (exec_copy fs os c))) = 5
        \<and> sleeps (op_trace (fst (exec_copy fs os c))) = [1/10, 1/5, 2/5, 4/5, 8/5])
    \<and> (n < 5 \<and> (\<forall>k < n. locked_at os k) \<and> copy2_raises os n = None \<and> log_raises os 0 = None \<longrightarrow>
          status (op_change (fst (exec_copy fs os c))) = ''done''
        \<and> copy_calls (op_trace (fst (exec_copy fs os c))) = Suc n
        \<and> sleeps (op_trace (fst (exec_copy fs os c))) = map (\<lambda>k. 1/10 * 2 ^ k) [0..<n]
        \<and> snd (exec_copy fs os c) = None)
    \<and> (n < 5 \<and> (\<forall>k < n. locked_at os k) \<and> copy2_raises os n = Some e \<and> \<not> is_lock_error e \<longrightarrow>
          status (op_change (fst (exec_copy fs os c))) = ''failed''
        \<and> copy_calls (op_trace (fst (exec_copy fs os c))) = Suc n
        \<and> sleeps (op_trace (fst (exec_copy fs os c))) = map (\<lambda>k. 1/10 * 2 ^ k) [0..<n]
        \<and> (\<exists>pre post. op_trace (fst (exec_copy fs os c)) =
               pre @ Copy2 (str_of (Path_of (source c))) (str_of actual)
                   # LogChange (op_change (fst (exec_copy fs os c))) # post
               \<and> copy_calls post = 0 \<and> sleeps post = [])
        \<and> (log_raises os 0 = None \<and> write_raises os 0 = None \<longrightarrow>
              snd (exec_copy fs os c) = None
            \<and> (\<exists>pre. op_trace (fst (exec_copy fs os c)) =
                  pre @ [Copy2 (str_of (Path_of (source c))) (str_of actual),
                         LogChange (op_change (fst (exec_copy fs os c))),
                         Report (error_line c (path_name (Path_of (source c))) (exn_str e))]))))
   \<and> ((\<forall>j. quiet_log (snd (env j))) \<and> (\<forall>js. set (completed js) = set js)
        \<and> (\<forall>j < length (changes L). action (changes L ! j) = ''create_folder''
              \<longrightarrow> makedirs_raises (snd (env j)) = None)
        \<and> (jsonl \<longrightarrow> open_raises = None)
      \<longrightarrow> (\<exists>L' tr. execute False jsonl open_raises workers completed env L = (L', tr, None)
             \<and> length (changes L') = length (changes L)
             \<and> (\<forall>j < length (changes L).
                   changes L' ! j
                     = entry_result (if jsonl then env else mute_log env) j (changes L ! j))))"
proof (intro conjI impI)
  assume pre: "path_exists fs (Path_of (source c)) \<and> makedirs_raises os = None
      \<and> safe_dest fs (Path_of (source c)) (Path_of (destination c)) = (actual, st) \<and> st \<noteq> ''skip''"
  assume "\<forall>k < 5. locked_at os k"
  then have al: "all_locked (copy2_raises os) [0..<RETRY_ATTEMPTS]"
    by (simp add: all_locked_iff RETRY_ATTEMPTS_def)
  from pre have b: "exec_copy_body fs os c =
     mark_failed os (path_name (Path_of (source c)))
       (case copy2_raises os 4 of None \<Rightarrow> ''None'' | Some e \<Rightarrow> exn_str e)
       ((ready c actual st)\<lparr>op_trace := op_trace (ready c actual st)
            @ lock_steps (str_of (Path_of (source c))) (str_of actual) [0..<RETRY_ATTEMPTS]\<rparr>)"
    by (intro body_exhausted[OF _ _ _ _ al]) simp_all
  note r = exec_copy_failed_body[OF b]
  show "status (op_change (fst (exec_copy fs os c))) = ''failed''" by (rule r(1))
  show "copy_calls (op_trace (fst (exec_copy fs os c))) = 5"
    by (simp add: r(2) copy_calls_append copy_calls_lock_steps ready_calls RETRY_ATTEMPTS_def)
  show "sleeps (op_trace (fst (exec_copy fs os c))) = [1/10, 1/5, 2/5, 4/5, 8/5]"
    by (simp add: r(3) sleeps_append sleeps_lock_steps ready_calls delays)
next
  assume pre: "path_exists fs (Path_of (source c)) \<and> makedirs_raises os = None
      \<and> safe_dest fs (Path_of (source c)) (Path_of (destination c)) = (actual, st) \<and> st \<noteq> ''skip''"
  assume h: "n < 5 \<and> (\<forall>k < n. locked_at os k) \<and> copy2_raises os n = None \<and> log_raises os 0 = None"
  then have al: "all_locked (copy2_raises os) [0..<n]" by (simp add: all_locked_iff)
  from h have n: "n < 5" and ok: "copy2_raises os n = None" and lg: "log_raises os 0 = None"
    by simp_all
  from pre have b: "exec_copy_body fs os c =
     (\<lparr>op_change = (op_change (ready c actual st))\<lparr>status := ''done''\<rparr>, op_logs = 1, op_writes = 0,
       op_trace = op_trace (ready c actual st)
          @ lock_steps (str_of (Path_of (source c))) (str_of actual) [0..<n]
          @ [Copy2 (str_of (Path_of (source c))) (str_of actual),
             LogChange ((op_change (ready c actual st))\<lparr>status := ''done''\<rparr>)]\<rparr>, None)"
    by (intro body_done[OF _ _ _ _ n al ok lg]) simp_all
  show "status (op_change (fst (exec_copy fs os c))) = ''done''"
    by (simp add: exec_copy_def b)
  show "copy_calls (op_trace (fst (exec_copy fs os c))) = Suc n"
    by (simp add: exec_copy_def b copy_calls_append copy_calls_lock_steps ready_calls)
  show "sleeps (op_trace (fst (exec_copy fs os c))) = map (\<lambda>k. 1/10 * 2 ^ k) [0..<n]"
    by (simp add: exec_copy_def b sleeps_append sleeps_lock_steps ready_calls RETRY_BASE_DELAY_def)
  show "snd (exec_copy fs os c) = None"
    by (simp add: exec_copy_def b)
next
  assume pre: "path_exists fs (Path_of (source c)) \<and> makedirs_raises os = None
      \<and> safe_dest fs (Path_of (source c)) (Path_of (destination c)) = (actual, st) \<and> st \<noteq> ''skip''"
  assume h: "n < 5 \<and> (\<forall>k < n. locked_at os k) \<and> copy2_raises os n = Some e \<and> \<not> is_lock_error e"
  then have al: "all_locked (copy2_raises os) [0..<n]" by (simp add: all_locked_iff)
  from h have n: "n < 5" and ex: "copy2_raises os n = Some e" and nl: "\<not> is_lock_error e"
    by simp_all
  let ?s = "str_of (Path_of (source c))"
  let ?st0 = "(ready c actual st)\<lparr>op_trace := op_trace (ready c actual st)
          @ lock_steps ?s (str_of actual) [0..<n] @ [Copy2 ?s (str_of actual)]\<rparr>"
  let ?nm = "path_name (Path_of (source c))"
  from pre have b: "exec_copy_body fs os c = (?st0, Some e)"
    by (intro body_raised[OF _ _ _ _ n al ex nl]) simp_all
  have x: "exec_copy fs os c = mark_failed os ?nm (exn_str e) ?st0"
    by (simp add: exec_copy_def b)
  show "status (op_change (fst (exec_copy fs os c))) = ''failed''"
    by (simp add: x mark_failed_change)
  show "copy_calls (op_trace (fst (exec_copy fs os c))) = Suc n"
    by (simp add: x mark_failed_copy_calls copy_calls_append copy_calls_lock_steps ready_calls)
  show "sleeps (op_trace (fst (exec_copy fs os c))) = map (\<lambda>k. 1/10 * 2 ^ k) [0..<n]"
    by (simp add: x mark_failed_sleeps sleeps_append sleeps_lock_steps ready_calls RETRY_BASE_DELAY_def)
  from mark_failed_trace[of os ?nm "exn_str e" ?st0]
  obtain post where post: "op_trace (fst (mark_failed os ?nm (exn_str e) ?st0))
            = op_trace ?st0 @ LogChange ((op_change ?st0)\<lparr>status := ''failed''\<rparr>) # post"
    "copy_calls post = 0" "sleeps post = []"
    by blast
  show "\<exists>pre post. op_trace (fst (exec_copy fs os c)) =
               pre @ Copy2 ?s (str_of actual) # LogChange (op_change (fst (exec_copy fs os c))) # post
               \<and> copy_calls post = 0 \<and> sleeps post = []"
    by (rule exI[of _ "op_trace (ready c actual st) @ lock_steps ?s (str_of actual) [0..<n]"],
        rule exI[of _ post])
       (simp add: x post mark_failed_change)
next
  assume pre: "path_exists fs (Path_of (source c)) \<and> makedirs_raises os = None
      \<and> safe_dest fs (Path_of (source c)) (Path_of (destination c)) = (actual, st) \<and> st \<noteq> ''skip''"
  assume h: "n < 5 \<and> (\<forall>k < n. locked_at os k) \<and> copy2_raises os n = Some e \<and> \<not> is_lock_error e"
  assume q: "log_raises os 0 = None \<and> write_raises os 0 = None"
  from h have al: "all_locked (copy2_raises os) [0..<n]" by (simp add: all_locked_iff)
  from h have n: "n < 5" and ex: "copy2_raises os n = Some e" and nl: "\<not> is_lock_error e"
    by simp_all
  let ?s = "str_of (Path_of (source c))"
  let ?st0 = "(ready c actual st)\<lparr>op_trace := op_trace (ready c actual st)
          @ lock_steps ?s (str_of actual) [0..<n] @ [Copy2 ?s (str_of actual)]\<rparr>"
  let ?nm = "path_name (Path_of (source c))"
  from pre have b: "exec_copy_body fs os c = (?st0, Some e)"
    by (intro body_raised[OF _ _ _ _ n al ex nl]) simp_all
  have x: "exec_copy fs os c = mark_failed os ?nm (exn_str e) ?st0"
    by (simp add: exec_copy_def b)
  have m: "mark_failed os ?nm (exn_str e) ?st0
     = (\<lparr>op_change = (op_change ?st0)\<lparr>status := ''failed''\<rparr>, op_logs = Suc (op_logs ?st0),
         op_writes = Suc (op_writes ?st0),
         op_trace = op_trace ?st0 @ [LogChange ((op_change ?st0)\<lparr>status := ''failed''\<rparr>),
                                     Report (error_line (op_change ?st0) ?nm (exn_str e))]\<rparr>, None)"
    using q by (intro mark_failed_quiet) (simp_all add: ready_calls)
  have el: "error_line (op_change (ready c actual st)) ?nm (exn_str e) = error_line c ?nm (exn_str e)"
    by (rule error_line_action) (simp add: ready_calls)
  show "snd (exec_copy fs os c) = None" by (simp add: x m)
  show "\<exists>pre. op_trace (fst (exec_copy fs os c)) =
                  pre @ [Copy2 ?s (str_of actual),
                         LogChange (op_change (fst (exec_copy fs os c))),
                         Report (error_line c ?nm (exn_str e))]"
    by (rule exI[of _ "op_trace (ready c actual st) @ lock_steps ?s (str_of actual) [0..<n]"])
       (simp add: x m el)
next
  assume "(\<forall>j. quiet_log (snd (env j))) \<and> (\<forall>js. set (completed js) = set js)
        \<and> (\<forall>j < length (changes L). action (changes L ! j) = ''create_folder''
              \<longrightarrow> makedirs_raises (snd (env j)) = None)
        \<and> (jsonl \<longrightarrow> open_raises = None)"
  then show "\<exists>L' tr. execute False jsonl open_raises workers completed env L = (L', tr, None)
             \<and> length (changes L') = length (changes L)
             \<and> (\<forall>j < length (changes L).
                   changes L' ! j
                     = entry_result (if jsonl then env else mute_log env) j (changes L ! j))"
    by (intro execute_quiet) simp_all
qed

lemma being_used: "contains ''file is being used by another process'' ''being used''"
  by code_simp

lemma not_being_used: "\<not> contains ''Access is denied'' ''being used''"
  by code_simp

lemma demo_copy_ready:
  "path_exists demo_fs (Path_of (source demo_copy))"
  "safe_dest demo_fs (Path_of (source demo_copy)) (Path_of (destination demo_copy))
     = (Path_of ''out/c.pdf'', ''ok'')"
  "path_exists demo_fs (Path_of (source demo_copy2))"
  "safe_dest demo_fs (Path_of (source demo_copy2)) (Path_of (destination demo_copy2))
     = (Path_of ''out/d.pdf'', ''ok'')"
  by (simp_all add: demo_copy_def demo_copy2_def path_exists_def safe_dest_def demo_paths demo_fs_def)

lemma demo_ledger_changes: "changes demo_ledger = [demo_copy, demo_folder, demo_copy2]"
  by (simp add: demo_ledger_def plan_adds_def Ledger_add_def Ledger_init_def Let_def
      demo_copy_def demo_folder_def demo_copy2_def)

lemma list_of_three: "length xs = 3 \<Longrightarrow> xs = [xs ! 0, xs ! 1, xs ! 2]"
  by (rule nth_equalityI) (auto simp: less_Suc_eq numeral_3_eq_3 numeral_2_eq_2)

theorem C9_retry_and_isolation_witness:
  "path_exists demo_fs (Path_of (source demo_copy))
   \<and> safe_dest demo_fs (Path_of (source demo_copy)) (Path_of (destination demo_copy))
        = (Path_of ''out/c.pdf'', ''ok'')
   \<and> list_all (locked_at always_locked) [0, 1, 2, 3, 4]
   \<and> status (op_change (fst (exec_copy demo_fs always_locked demo_copy))) = ''failed''
   \<and> copy_calls (op_trace (fst (exec_copy demo_fs always_locked demo_copy))) = 5
   \<and> sleeps (op_trace (fst (exec_copy demo_fs always_locked demo_copy))) = [1/10, 1/5, 2/5, 4/5, 8/5]
   \<and> list_all (locked_at locked_twice) [0, 1] \<and> copy2_raises locked_twice 2 = None
   \<and> log_raises locked_twice 0 = None
   \<and> status (op_change (fst (exec_copy demo_fs locked_twice demo_copy))) = ''done''
   \<and> copy_calls (op_trace (fst (exec_copy demo_fs locked_twice demo_copy))) = 3
   \<and> sleeps (op_trace (fst (exec_copy demo_fs locked_twice demo_copy))) = [1/10, 1/5]
   \<and> snd (exec_copy demo_fs locked_twice demo_copy) = None
   \<and> locked_at locked_then_denied 0
   \<and> copy2_raises locked_then_denied 1 = Some (OSError (Some 5) ''Access is denied'')
   \<and> \<not> is_lock_error (OSError (Some 5) ''Access is denied'')
   \<and> log_raises locked_then_denied 0 = None \<and> write_raises locked_then_denied 0 = None
   \<and> status (op_change (fst (exec_copy demo_fs locked_then_denied demo_copy))) = ''failed''
   \<and> copy_calls (op_trace (fst (exec_copy demo_fs locked_then_denied demo_copy))) = 2
   \<and> sleeps (op_trace (fst (exec_copy demo_fs locked_then_denied demo_copy))) = [1/10]
   \<and> snd (exec_copy demo_fs locked_then_denied demo_copy) = None
   \<and> (\<forall>j. quiet_log (snd (demo_env j)))
   \<and> (\<forall>js. set (ledger_order js) = set js)
   \<and> (\<forall>j. makedirs_raises (snd (demo_env j)) = None)
   \<and> map status (changes (fst (execute False True None 8 ledger_order demo_env demo_ledger)))
       = [''failed'', ''done'', ''done'']
   \<and> snd (snd (execute False True None 8 ledger_order demo_env demo_ledger)) = None"
proof -
  have l5: "\<forall>k < 5. locked_at always_locked k"
    by (simp add: locked_at_def always_locked_def)
  have l2: "\<forall>k < 2. locked_at locked_twice k"
    by (simp add: locked_at_def locked_twice_def being_used)
  have l1: "\<forall>k < 1. locked_at locked_then_denied k"
    by (simp add: locked_at_def locked_then_denied_def)
  have n2: "copy2_raises locked_twice 2 = None" by (simp add: locked_twice_def)
  have n1: "copy2_raises locked_then_denied 1 = Some (OSError (Some 5) ''Access is denied'')"
    by (simp add: locked_then_denied_def)
  have nl: "\<not> is_lock_error (OSError (Some 5) ''Access is denied'')"
    by (simp add: is_lock_error_def not_being_used)
  have mk: "makedirs_raises always_locked = None" "makedirs_raises locked_twice = None"
    "makedirs_raises locked_then_denied = None"
    by (simp_all add: always_locked_def locked_twice_def locked_then_denied_def)
  have lg: "log_raises locked_twice 0 = None" "log_raises locked_then_denied 0 = None"
    "write_raises locked_then_denied 0 = None"
    by (simp_all add: locked_twice_def locked_then_denied_def no_raise_def)
  have ne: "''ok'' \<noteq> ''skip''" by simp
  have qa: "\<forall>j. quiet_log (snd (demo_env j))"
    by (simp add: quiet_log_def demo_env_def locked_twice_def locked_then_denied_def no_raise_def)
  have qb: "\<forall>js. set (ledger_order js) = set js" by (simp add: ledger_order_def)
  have qc: "\<forall>j. makedirs_raises (snd (demo_env j)) = None"
    by (simp add: demo_env_def mk)
  note a = C9_retry_and_isolation[where fs = demo_fs and c = demo_copy and os = always_locked
      and actual = "Path_of ''out/c.pdf''" and st = "''ok''" and L = Ledger_init and env = demo_env
      and completed = ledger_order]
  note b = C9_retry_and_isolation[where fs = demo_fs and c = demo_copy and os = locked_twice
      and actual = "Path_of ''out/c.pdf''" and st = "''ok''" and n = 2 and L = Ledger_init
      and env = demo_env and completed = ledger_order]
  note b2 = C9_retry_and_isolation[where fs = demo_fs and c = demo_copy2 and os = locked_twice
      and actual = "Path_of ''out/d.pdf''" and st = "''ok''" and n = 2 and L = Ledger_init
      and env = demo_env and completed = ledger_order]
  note d = C9_retry_and_isolation[where fs = demo_fs and c = demo_copy and os = locked_then_denied
      and actual = "Path_of ''out/c.pdf''" and st = "''ok''" and n = 1
      and e = "OSError (Some 5) ''Access is denied''"
      and L = demo_ledger and env = demo_env and completed = ledger_order and workers = 8
      and jsonl = True and open_raises = None]
  have ra: "status (op_change (fst (exec_copy demo_fs always_locked demo_copy))) = ''failed''
        \<and> copy_calls (op_trace (fst (exec_copy demo_fs always_locked demo_copy))) = 5
        \<and> sleeps (op_trace (fst (exec_copy demo_fs always_locked demo_copy))) = [1/10, 1/5, 2/5, 4/5, 8/5]"
    using a demo_copy_ready(1,2) mk l5 ne by blast
  have rb: "status (op_change (fst (exec_copy demo_fs locked_twice demo_copy))) = ''done''
        \<and> copy_calls (op_trace (fst (exec_copy demo_fs locked_twice demo_copy))) = Suc 2
        \<and> sleeps (op_trace (fst (exec_copy demo_fs locked_twice demo_copy))) = map (\<lambda>k. 1/10 * 2 ^ k) [0..<2]
        \<and> snd (exec_copy demo_fs locked_twice demo_copy) = None"
    using b demo_copy_ready(1,2) mk l2 n2 lg ne by simp
  have rb2: "status (op_change (fst (exec_copy demo_fs locked_twice demo_copy2))) = ''done''"
    using b2 demo_copy_ready(3,4) mk l2 n2 lg ne by simp
  have rd: "status (op_change (fst (exec_copy demo_fs locked_then_denied demo_copy))) = ''failed''
        \<and> copy_calls (op_trace (fst (exec_copy demo_fs locked_then_denied demo_copy))) = Suc 1
        \<and> sleeps (op_trace (fst (exec_copy demo_fs locked_then_denied demo_copy))) = map (\<lambda>k. 1/10 * 2 ^ k) [0..<1]
        \<and> snd (exec_copy demo_fs locked_then_denied demo_copy) = None"
    using d demo_copy_ready(1,2) mk l1 n1 nl lg ne by simp
  have qd: "True \<longrightarrow> (None :: exn option) = None" by simp
  from d qa qb qc qd obtain L' tr where
    ex: "execute False True None 8 ledger_order demo_env demo_ledger = (L', tr, None)"
    and len: "length (changes L') = length (changes demo_ledger)"
    and nth0: "\<forall>j < length (changes demo_ledger).
                changes L' ! j
                  = entry_result (if True then demo_env else mute_log demo_env) j (changes demo_ledger ! j)"
    by blast
  from nth0 have nth: "\<forall>j < length (changes demo_ledger).
                changes L' ! j = entry_result demo_env j (changes demo_ledger ! j)"
    by simp
  have len3: "length (changes L') = 3" using len by (simp add: demo_ledger_changes)
  have o0: "changes L' ! 0 = op_change (fst (exec_copy demo_fs locked_then_denied demo_copy))"
    using nth by (simp add: demo_ledger_changes entry_result_def demo_env_def demo_copy_def)
  have o1: "changes L' ! 1 = demo_folder\<lparr>status := ''done''\<rparr>"
    using nth by (simp add: demo_ledger_changes entry_result_def demo_folder_def)
  have o2: "changes L' ! 2 = op_change (fst (exec_copy demo_fs locked_twice demo_copy2))"
    using nth by (simp add: demo_ledger_changes entry_result_def demo_env_def demo_copy2_def)
  have "map status (changes L') = map status [changes L' ! 0, changes L' ! 1, changes L' ! 2]"
    using list_of_three[OF len3] by simp
  then have st: "map status (changes L') = [''failed'', ''done'', ''done'']"
    using o0 o1 o2 rd rb2 by simp
  have two: "[0..<2] = [0, Suc 0]" by (simp add: upt_rec)
  show ?thesis
    using demo_copy_ready(1,2) l5 l2 l1 n2 n1 nl lg ra rb rd qa qb qc st ex
    by (simp add: two)
qed

subsection \<open>Facts about the cross-copy pass and the gap-fill sweep\<close>



























subsection \<open>Claims about the cross-copy pass and the gap-fill sweep\<close>





end
